theory Spec2Isabelle
  imports Complex_Main
begin

section \<open>Exceptions and numeric arrays\<close>

text \<open>
  The benchmark of \<^verbatim>\<open>src/benchmark.py\<close> is embedded as pure functions. A Python exception is
  a value of \<open>error\<close>; a function that may raise returns \<open>error + 'a\<close>, with \<open>Inl\<close> the
  exception. Floating-point numbers are idealised as reals: rounding and NaN are not
  modelled.
\<close>

datatype error = ValueError | IndexError | KeyError | AttributeError | BackendError

definition dot :: "real list \<Rightarrow> real list \<Rightarrow> real" where
  "dot xs ys = sum_list (map2 (*) xs ys)"

text \<open>\<^verbatim>\<open>mat @ qv\<close> for a matrix given by its rows; a row of another length than \<open>qv\<close> is a
  shape mismatch.\<close>

definition matvec :: "real list list \<Rightarrow> real list \<Rightarrow> error + real list" where
  "matvec mat qv =
     (if list_all (\<lambda>row. length row = length qv) mat
      then Inr (map (\<lambda>row. dot row qv) mat)
      else Inl ValueError)"

text \<open>Indexing an array by an array of indices, \<^verbatim>\<open>a[idx]\<close>.\<close>

definition fancy :: "'a list \<Rightarrow> nat list \<Rightarrow> error + 'a list" where
  "fancy a idx =
     (if list_all (\<lambda>i. i < length a) idx then Inr (map (\<lambda>i. a ! i) idx) else Inl IndexError)"

text \<open>The slice \<^verbatim>\<open>a[:k]\<close>; a negative \<open>k\<close> counts from the end.\<close>

definition slice_to :: "'a list \<Rightarrow> int \<Rightarrow> 'a list" where
  "slice_to xs k = (if k < 0 then take (nat (int (length xs) + k)) xs else take (nat k) xs)"

subsection \<open>The sorting functions of numpy\<close>

text \<open>
  \<^verbatim>\<open>np.argsort\<close> and \<^verbatim>\<open>np.argpartition\<close> are library code. They are parameters of the model,
  and what their documentation promises is stated by \<open>argsort_ok\<close> and \<open>argpartition_ok\<close>:
  the result of \<open>argsort\<close> is a permutation of the indices that sorts the array; the result of
  \<open>argpartition\<close> is a permutation of the indices that puts the element of rank \<open>kth\<close> at
  position \<open>kth\<close>, nothing greater before it and nothing smaller behind it.
\<close>

record numpy =
  argsort :: "real list \<Rightarrow> nat list"
  argpartition :: "real list \<Rightarrow> nat \<Rightarrow> nat list"

definition argsort_ok :: "real list \<Rightarrow> nat list \<Rightarrow> bool" where
  "argsort_ok a idx \<longleftrightarrow>
     distinct idx \<and> set idx = {0..<length a} \<and> sorted (map (\<lambda>i. a ! i) idx)"

definition argpartition_ok :: "real list \<Rightarrow> nat \<Rightarrow> nat list \<Rightarrow> bool" where
  "argpartition_ok a kth idx \<longleftrightarrow>
     distinct idx \<and> set idx = {0..<length a} \<and>
     list_all (\<lambda>i. a ! i \<le> a ! (idx ! kth)) (take kth idx) \<and>
     list_all (\<lambda>i. a ! (idx ! kth) \<le> a ! i) (drop (Suc kth) idx)"

definition numpy_ok :: "numpy \<Rightarrow> bool" where
  "numpy_ok np \<longleftrightarrow>
     (\<forall>a. argsort_ok a (argsort np a)) \<and>
     (\<forall>a kth. kth < length a \<longrightarrow> argpartition_ok a kth (argpartition np a kth))"

text \<open>\<^verbatim>\<open>np.argpartition(a, kth)\<close> with an integer \<open>kth\<close>: a negative \<open>kth\<close> counts from the end,
  and a \<open>kth\<close> outside the array is a \<^verbatim>\<open>ValueError\<close>.\<close>

definition np_argpartition :: "numpy \<Rightarrow> real list \<Rightarrow> int \<Rightarrow> error + nat list" where
  "np_argpartition np a kth =
     (let n = int (length a) in
      if kth < - n \<or> n \<le> kth then Inl ValueError
      else Inr (argpartition np a (nat (if kth < 0 then kth + n else kth))))"

text \<open>One implementation of the two functions, by a stable insertion sort of the indices.\<close>

definition argsort_ref :: "real list \<Rightarrow> nat list" where
  "argsort_ref a = sort_key (\<lambda>i. a ! i) [0..<length a]"

definition np_ref :: numpy where
  "np_ref = \<lparr>argsort = argsort_ref, argpartition = (\<lambda>a kth. argsort_ref a)\<rparr>"

section \<open>The exact baseline\<close>

text \<open>
  \<^verbatim>\<open>
  def exact_topk_indices(qv, mat, k):
      sims = mat @ qv
      if k >= len(sims):
          return np.argsort(-sims)
      idx = np.argpartition(-sims, k)[:k]
      return idx[np.argsort(-sims[idx])]
  \<close>
\<close>

definition exact_topk_indices :: "numpy \<Rightarrow> real list \<Rightarrow> real list list \<Rightarrow> int \<Rightarrow> error + nat list" where
  "exact_topk_indices np qv mat k =
     (case matvec mat qv of
        Inl e \<Rightarrow> Inl e
      | Inr sims \<Rightarrow>
          if int (length sims) \<le> k then Inr (argsort np (map uminus sims))
          else
            (case np_argpartition np (map uminus sims) k of
               Inl e \<Rightarrow> Inl e
             | Inr part \<Rightarrow>
                 let idx = slice_to part k in
                 (case fancy sims idx of
                    Inl e \<Rightarrow> Inl e
                  | Inr best \<Rightarrow> fancy idx (argsort np (map uminus best)))))"

text \<open>The score of a reference vector, and a list in descending order.\<close>

definition score :: "real list \<Rightarrow> real list list \<Rightarrow> nat \<Rightarrow> real" where
  "score qv mat i = dot (mat ! i) qv"

definition descending :: "real list \<Rightarrow> bool" where
  "descending xs = sorted_wrt (\<lambda>a b. b \<le> a) xs"


section \<open>Backends, queries and search results\<close>

text \<open>
  A value that a backend returns as an identifier: a Python integer, a string, or a value of
  another type, kept as the text that \<^verbatim>\<open>str\<close> gives for it. An absent key and the value
  \<^verbatim>\<open>None\<close> are both \<open>None\<close>, as \<^verbatim>\<open>dict.get\<close> returns for them.
\<close>

datatype pyval = PInt int | PStr string | POther string

record payload =
  row_id :: "pyval option"
  attrs :: "(string \<times> string) list"

record hit =
  hit_id :: "pyval option"
  hit_payload :: "payload option"

record 'e query =
  q_text :: string
  q_expected :: 'e

text \<open>\<^verbatim>\<open>str.lower\<close> on ASCII names.\<close>

definition lower_char :: "char \<Rightarrow> char" where
  "lower_char c =
     (case map_of (zip ''ABCDEFGHIJKLMNOPQRSTUVWXYZ'' ''abcdefghijklmnopqrstuvwxyz'') c of
        None \<Rightarrow> c
      | Some d \<Rightarrow> d)"

definition lower :: "string \<Rightarrow> string" where
  "lower s = map lower_char s"

text \<open>\<^verbatim>\<open>str\<close> of an integer, in decimal.\<close>

fun str_nat :: "nat \<Rightarrow> string" where
  "str_nat n =
     (if n < 10 then [''0123456789'' ! n]
      else str_nat (n div 10) @ [''0123456789'' ! (n mod 10)])"

declare str_nat.simps [simp del]

definition str_int :: "int \<Rightarrow> string" where
  "str_int i = (if i < 0 then CHR ''-'' # str_nat (nat (- i)) else str_nat (nat i))"

definition py_str :: "pyval \<Rightarrow> string" where
  "py_str v = (case v of PInt i \<Rightarrow> str_int i | PStr s \<Rightarrow> s | POther s \<Rightarrow> s)"

text \<open>
  \<^verbatim>\<open>get_db\<close> returns a client for the five names it knows. For any other name the function
  falls off its end, and the call returns \<^verbatim>\<open>None\<close>.
\<close>

datatype client = Qdrant | Milvus | WeaviateDB | PineconeClient | TopKClient

definition get_db :: "string \<Rightarrow> client option" where
  "get_db name =
     (let name = lower name in
      if name = ''qdrant'' then Some Qdrant
      else if name = ''milvus'' then Some Milvus
      else if name = ''weaviate'' then Some WeaviateDB
      else if name = ''pinecone'' then Some PineconeClient
      else if name = ''topk'' then Some TopKClient
      else None)"

text \<open>The embedding model is an external collaborator, a function from text to a vector.\<close>

definition embed_query :: "string \<Rightarrow> (string \<Rightarrow> real list) \<Rightarrow> real list" where
  "embed_query q model = model q"

section \<open>One query in a worker thread\<close>

text \<open>
  \<^verbatim>\<open>
  def _one_query(q):
      q_vec = embed_query(q["text"], query_model)
      s0 = time.time()
      res = db.search(q_vec, top_k=k)
      latency = time.time() - s0
      return latency, res, q
  \<close>
  A worker sees the system clock through \<^verbatim>\<open>time.time()\<close>: the \<open>n\<close>-th call returns
  \<open>readings n\<close>. \<^verbatim>\<open>time.time()\<close> is the wall clock of the system, which can be set back, so
  nothing orders the readings. The calls the worker makes are recorded in order.
\<close>

datatype call = EmbedCall string | TimeCall | SearchCall "real list" int

record thread =
  readings :: "nat \<Rightarrow> real"
  reads :: nat
  calls :: "call list"

definition time_time :: "thread \<Rightarrow> real \<times> thread" where
  "time_time w = (readings w (reads w), w\<lparr>reads := Suc (reads w), calls := calls w @ [TimeCall]\<rparr>)"

definition one_query ::
  "(string \<Rightarrow> real list) \<Rightarrow> (real list \<Rightarrow> int \<Rightarrow> error + hit list) \<Rightarrow> int \<Rightarrow> 'e query \<Rightarrow> thread
     \<Rightarrow> (error + real \<times> hit list \<times> 'e query) \<times> thread" where
  "one_query model search k q w =
     (let q_vec = embed_query (q_text q) model;
          w1 = w\<lparr>calls := calls w @ [EmbedCall (q_text q)]\<rparr>;
          (s0, w2) = time_time w1;
          w3 = w2\<lparr>calls := calls w2 @ [SearchCall q_vec k]\<rparr>
      in case search q_vec k of
           Inl e \<Rightarrow> (Inl e, w3)
         | Inr res \<Rightarrow> (let (s1, w4) = time_time w3 in (Inr (s1 - s0, res, q), w4)))"

section \<open>Recall against the exact baseline\<close>

text \<open>\<^verbatim>\<open>r.get("payload", {}).get("row_id")\<close>\<close>

definition get_row_id :: "hit \<Rightarrow> pyval option" where
  "get_row_id r = (case hit_payload r of None \<Rightarrow> None | Some p \<Rightarrow> row_id p)"

text \<open>The identifiers of a result, compared as strings for Pinecone and as integers for the
  other backends. A result with no usable identifier contributes none.\<close>

definition res_ids_str :: "hit list \<Rightarrow> string list" where
  "res_ids_str res =
     concat (map (\<lambda>r. case get_row_id r of
                         Some pid \<Rightarrow> [py_str pid]
                       | None \<Rightarrow> (case hit_id r of Some rid \<Rightarrow> [py_str rid] | None \<Rightarrow> [])) res)"

definition as_int :: "pyval option \<Rightarrow> int option" where
  "as_int v = (case v of Some (PInt i) \<Rightarrow> Some i | _ \<Rightarrow> None)"

definition res_ids_int :: "hit list \<Rightarrow> int list" where
  "res_ids_int res =
     concat (map (\<lambda>r. case as_int (get_row_id r) of
                         Some pid \<Rightarrow> [pid]
                       | None \<Rightarrow> (case as_int (hit_id r) of Some rid \<Rightarrow> [rid] | None \<Rightarrow> [])) res)"

definition recall_of :: "string \<Rightarrow> nat list \<Rightarrow> hit list \<Rightarrow> int \<Rightarrow> real" where
  "recall_of db_name true_idx res k =
     (let inter =
            (if lower db_name = ''pinecone''
             then card (set (map (\<lambda>i. str_int (int i)) true_idx) \<inter> set (res_ids_str res))
             else card (set (map int true_idx) \<inter> set (res_ids_int res)))
      in if k > 0 then real inter / real_of_int k else 0)"

text \<open>Lines 188 to 217: the baseline is computed for the query vector, and the recall of the
  backend's result against it.\<close>

definition recall_at_k ::
  "numpy \<Rightarrow> real list list \<Rightarrow> string \<Rightarrow> real list \<Rightarrow> hit list \<Rightarrow> int \<Rightarrow> error + real" where
  "recall_at_k np vecs db_name q_vec res k =
     (case exact_topk_indices np q_vec vecs k of
        Inl e \<Rightarrow> Inl e
      | Inr true_idx \<Rightarrow> Inr (recall_of db_name true_idx res k))"


section \<open>The inputs of a run and its environment\<close>

text \<open>The parsed command line, the loaded embeddings and the loaded queries.\<close>

record 'e setting =
  dbs :: "string list"
  topk :: int
  topk_sweep :: "int list option"
  concurrency :: int
  repetitions :: int
  warmup :: int
  query_model :: string
  vectors :: "real list list"
  queries :: "'e query list"

text \<open>The library and repository code that is not in \<^verbatim>\<open>benchmark.py\<close>: numpy, the embedding
  model, and \<^verbatim>\<open>utils.metrics.hits_at_k\<close>.\<close>

record 'e externals =
  x_np :: numpy
  x_model :: "string \<Rightarrow> real list"
  x_hits_at_k :: "payload list \<Rightarrow> 'e \<Rightarrow> real"

text \<open>
  What the world outside decides during a run is given by position in the loops of
  \<^verbatim>\<open>main\<close>: \<open>i\<close> is the position of the backend in \<^verbatim>\<open>args.dbs\<close>, \<open>j\<close> the position of \<open>k\<close> in
  the sweep, \<open>r\<close> the repetition. A backend call raises or returns; the clock returns a
  reading; \<^verbatim>\<open>random.shuffle\<close> orders the queries by a random key; a worker thread sees its
  own clock readings and the outcome of its search, and finishes at \<open>w_done\<close>, which
  decides where \<^verbatim>\<open>as_completed\<close> yields it. Every order of submission and of completion is
  the order of some keys.
\<close>

record worker_obs =
  w_clock :: "nat \<Rightarrow> real"
  w_search :: "error + hit list"
  w_done :: nat

type_synonym pos = "nat \<times> nat \<times> nat"

record env =
  setup_raises :: "nat \<Rightarrow> error option"
  upsert_raises :: "nat \<Rightarrow> error option"
  teardown_raises :: "nat \<Rightarrow> error option"
  db_clock :: "nat \<Rightarrow> real \<times> real \<times> real"
  warm_search :: "nat \<Rightarrow> nat \<Rightarrow> nat \<Rightarrow> error + hit list"
  rep_clock :: "pos \<Rightarrow> real \<times> real"
  shuffle_key :: "pos \<Rightarrow> nat \<Rightarrow> nat"
  worker :: "pos \<Rightarrow> nat \<Rightarrow> worker_obs"

text \<open>The calls that \<^verbatim>\<open>main\<close> makes on the backend adapters, in order: \<^verbatim>\<open>setup\<close> with the
  dimension it passes, \<^verbatim>\<open>upsert\<close> with the batch size it passes, \<^verbatim>\<open>search\<close> with
  \<^verbatim>\<open>top_k\<close>, \<^verbatim>\<open>teardown\<close>.\<close>

datatype event =
    Setup string "nat option"
  | Upsert string "nat option"
  | Search string int
  | Teardown string

section \<open>Collecting the samples of a repetition\<close>

record acc =
  latencies :: "real list"
  hits :: "real list"
  recalls :: "real list"
  qps_by_rep :: "real list"
  first_latency :: "real option"

definition acc0 :: acc where
  "acc0 = \<lparr>latencies = [], hits = [], recalls = [], qps_by_rep = [], first_latency = None\<rparr>"

text \<open>\<^verbatim>\<open>[r["payload"] for r in res]\<close>\<close>

definition payloads_of :: "hit list \<Rightarrow> error + payload list" where
  "payloads_of res =
     (if list_all (\<lambda>r. hit_payload r \<noteq> None) res
      then Inr (map (\<lambda>r. the (hit_payload r)) res)
      else Inl KeyError)"

text \<open>Lines 180 to 217, the body of the loop over the completed futures.\<close>

definition process_sample ::
  "'e externals \<Rightarrow> 'e setting \<Rightarrow> string \<Rightarrow> int \<Rightarrow> acc \<Rightarrow> real \<times> hit list \<times> 'e query \<Rightarrow> error + acc" where
  "process_sample x cfg db_name k a smp =
     (case smp of (latency, res, q) \<Rightarrow>
        let a1 = a\<lparr>first_latency := (case first_latency a of None \<Rightarrow> Some latency | Some l \<Rightarrow> Some l),
                   latencies := latencies a @ [latency]\<rparr>
        in case payloads_of res of
             Inl e \<Rightarrow> Inl e
           | Inr res_payloads \<Rightarrow>
               let hitk = x_hits_at_k x res_payloads (q_expected q);
                   a2 = a1\<lparr>hits := hits a1 @ [hitk]\<rparr>;
                   q_vec = embed_query (q_text q) (x_model x)
               in case recall_at_k (x_np x) (vectors cfg) db_name q_vec res k of
                    Inl e \<Rightarrow> Inl e
                  | Inr rc \<Rightarrow> Inr (a2\<lparr>recalls := recalls a2 @ [rc]\<rparr>))"

text \<open>\<^verbatim>\<open>for f in as_completed(futs): latency, res, q = f.result(); ...\<close>: the result of a
  future whose call raised raises again, and nothing catches it.\<close>

fun collect :: "(acc \<Rightarrow> 's \<Rightarrow> error + acc) \<Rightarrow> acc \<Rightarrow> (error + 's) list \<Rightarrow> error + acc" where
  "collect f a [] = Inr a"
| "collect f a (Inl e # rest) = Inl e"
| "collect f a (Inr s # rest) = (case f a s of Inl e \<Rightarrow> Inl e | Inr a' \<Rightarrow> collect f a' rest)"

definition worker_thread :: "worker_obs \<Rightarrow> thread" where
  "worker_thread ob = \<lparr>readings = w_clock ob, reads = 0, calls = []\<rparr>"

text \<open>\<^verbatim>\<open>order = list(range(len(queries))); random.shuffle(order);
  futs = [ex.submit(_one_query, queries[idx]) for idx in order]\<close>\<close>

definition submit_all ::
  "'e externals \<Rightarrow> env \<Rightarrow> 'e setting \<Rightarrow> int \<Rightarrow> pos \<Rightarrow> (nat \<times> (error + real \<times> hit list \<times> 'e query)) list" where
  "submit_all x env cfg k p =
     (let order = sort_key (shuffle_key env p) [0..<length (queries cfg)]
      in map (\<lambda>idx. (idx, fst (one_query (x_model x) (\<lambda>q_vec top_k. w_search (worker env p idx)) k
                                   (queries cfg ! idx) (worker_thread (worker env p idx))))) order)"

definition as_completed :: "env \<Rightarrow> pos \<Rightarrow> (nat \<times> 'a) list \<Rightarrow> 'a list" where
  "as_completed env p futs = map snd (sort_key (\<lambda>f. w_done (worker env p (fst f))) futs)"

text \<open>Lines 164 to 220, one repetition. \<^verbatim>\<open>ThreadPoolExecutor\<close> raises \<^verbatim>\<open>ValueError\<close> for
  \<^verbatim>\<open>max_workers <= 0\<close>. Every submitted query is searched, also when the loop over the
  completed futures is left by an exception: leaving the \<^verbatim>\<open>with\<close> block waits for the
  workers.\<close>

definition run_rep ::
  "'e externals \<Rightarrow> env \<Rightarrow> 'e setting \<Rightarrow> string \<Rightarrow> int \<Rightarrow> pos \<Rightarrow> acc \<Rightarrow> (error + acc) \<times> event list" where
  "run_rep x env cfg db_name k p a =
     (let (s_all, t_end) = rep_clock env p in
      if concurrency cfg \<le> 0 then (Inl ValueError, [])
      else
        let futs = submit_all x env cfg k p;
            ev = map (\<lambda>f. Search db_name k) futs
        in case collect (process_sample x cfg db_name k) a (as_completed env p futs) of
             Inl e \<Rightarrow> (Inl e, ev)
           | Inr a' \<Rightarrow>
               let wall = t_end - s_all;
                   qps = (if wall > 0 then real (length (queries cfg)) / wall else 0)
               in (Inr (a'\<lparr>qps_by_rep := qps_by_rep a' @ [qps]\<rparr>), ev))"

fun run_reps ::
  "'e externals \<Rightarrow> env \<Rightarrow> 'e setting \<Rightarrow> string \<Rightarrow> int \<Rightarrow> nat \<Rightarrow> nat \<Rightarrow> nat list \<Rightarrow> acc
     \<Rightarrow> (error + acc) \<times> event list" where
  "run_reps x env cfg db_name k i j [] a = (Inr a, [])"
| "run_reps x env cfg db_name k i j (r # rs) a =
     (case run_rep x env cfg db_name k (i, j, r) a of
        (Inl e, ev) \<Rightarrow> (Inl e, ev)
      | (Inr a', ev) \<Rightarrow>
          (case run_reps x env cfg db_name k i j rs a' of (out, ev') \<Rightarrow> (out, ev @ ev')))"

section \<open>Statistics\<close>

text \<open>\<^verbatim>\<open>np.mean\<close>, \<^verbatim>\<open>np.percentile\<close> with its default linear interpolation, and \<^verbatim>\<open>np.std\<close>
  (the population standard deviation), on a list that is not empty.\<close>

definition mean :: "real list \<Rightarrow> real" where
  "mean xs = sum_list xs / real (length xs)"

definition percentile :: "real list \<Rightarrow> real \<Rightarrow> real" where
  "percentile xs q =
     (let s = sort xs;
          h = (real (length xs) - 1) * q / 100;
          lo = nat \<lfloor>h\<rfloor>;
          hi = min (Suc lo) (length xs - 1)
      in s ! lo + (h - real lo) * (s ! hi - s ! lo))"

definition np_std :: "real list \<Rightarrow> real" where
  "np_std xs = sqrt (mean (map (\<lambda>v. (v - mean xs)\<^sup>2) xs))"

record kresult =
  setup_time_sec :: real
  ingest_time_sec :: real
  avg_query_latency_sec :: "real option"
  p50_query_latency_sec :: "real option"
  p95_query_latency_sec :: "real option"
  p99_query_latency_sec :: "real option"
  latency_stddev_sec :: "real option"
  first_query_latency_sec :: "real option"
  avg_hits_at :: "real option"
  avg_recall_at :: "real option"
  avg_qps :: "real option"

text \<open>\<^verbatim>\<open>float(f(xs)) if xs else None\<close>\<close>

definition stat :: "(real list \<Rightarrow> real) \<Rightarrow> real list \<Rightarrow> real option" where
  "stat f xs = (if xs = [] then None else Some (f xs))"

text \<open>Lines 222 to 243.\<close>

definition summarise :: "real \<Rightarrow> real \<Rightarrow> acc \<Rightarrow> kresult" where
  "summarise setup_time ingest_time a =
     \<lparr>setup_time_sec = setup_time,
      ingest_time_sec = ingest_time,
      avg_query_latency_sec = stat mean (latencies a),
      p50_query_latency_sec = stat (\<lambda>xs. percentile xs 50) (latencies a),
      p95_query_latency_sec = stat (\<lambda>xs. percentile xs 95) (latencies a),
      p99_query_latency_sec = stat (\<lambda>xs. percentile xs 99) (latencies a),
      latency_stddev_sec = stat np_std (latencies a),
      first_query_latency_sec = first_latency a,
      avg_hits_at = stat mean (hits a),
      avg_recall_at = stat mean (recalls a),
      avg_qps = stat mean (qps_by_rep a)\<rparr>"

text \<open>Lines 153 to 243, one value of \<open>k\<close>: the lists are created once, every repetition
  appends to them, and the statistics are taken at the end.\<close>

definition run_k ::
  "'e externals \<Rightarrow> env \<Rightarrow> 'e setting \<Rightarrow> string \<Rightarrow> real \<Rightarrow> real \<Rightarrow> nat \<Rightarrow> nat \<Rightarrow> int
     \<Rightarrow> (error + kresult) \<times> event list" where
  "run_k x env cfg db_name setup_time ingest_time i j k =
     (case run_reps x env cfg db_name k i j [0..<nat (repetitions cfg)] acc0 of
        (Inl e, ev) \<Rightarrow> (Inl e, ev)
      | (Inr a, ev) \<Rightarrow> (Inr (summarise setup_time ingest_time a), ev))"

fun run_ks ::
  "'e externals \<Rightarrow> env \<Rightarrow> 'e setting \<Rightarrow> string \<Rightarrow> real \<Rightarrow> real \<Rightarrow> nat \<Rightarrow> nat \<Rightarrow> int list
     \<Rightarrow> (int \<rightharpoonup> kresult) \<Rightarrow> (error + (int \<rightharpoonup> kresult)) \<times> event list" where
  "run_ks x env cfg db_name setup_time ingest_time i j [] res = (Inr res, [])"
| "run_ks x env cfg db_name setup_time ingest_time i j (k # ks) res =
     (case run_k x env cfg db_name setup_time ingest_time i j k of
        (Inl e, ev) \<Rightarrow> (Inl e, ev)
      | (Inr kr, ev) \<Rightarrow>
          (case run_ks x env cfg db_name setup_time ingest_time i (Suc j) ks (res(k \<mapsto> kr)) of
             (out, ev') \<Rightarrow> (out, ev @ ev')))"

section \<open>One backend, and the whole run\<close>

text \<open>\<^verbatim>\<open>topks = args.topk_sweep or [args.topk]\<close>: an empty sweep is false.\<close>

definition topks :: "'e setting \<Rightarrow> int list" where
  "topks cfg = (case topk_sweep cfg of None \<Rightarrow> [topk cfg] | Some [] \<Rightarrow> [topk cfg] | Some ks \<Rightarrow> ks)"

text \<open>Lines 146 to 149, the warm-up passes.\<close>

fun warm_queries :: "env \<Rightarrow> string \<Rightarrow> int \<Rightarrow> nat \<Rightarrow> nat \<Rightarrow> nat list \<Rightarrow> (error + unit) \<times> event list" where
  "warm_queries env db_name k i w [] = (Inr (), [])"
| "warm_queries env db_name k i w (qi # qis) =
     (case warm_search env i w qi of
        Inl e \<Rightarrow> (Inl e, [Search db_name k])
      | Inr res \<Rightarrow>
          (case warm_queries env db_name k i w qis of (out, ev) \<Rightarrow> (out, Search db_name k # ev)))"

fun warm_passes ::
  "env \<Rightarrow> string \<Rightarrow> int \<Rightarrow> nat \<Rightarrow> nat \<Rightarrow> nat list \<Rightarrow> (error + unit) \<times> event list" where
  "warm_passes env db_name k i n [] = (Inr (), [])"
| "warm_passes env db_name k i n (w # ws) =
     (case warm_queries env db_name k i w [0..<n] of
        (Inl e, ev) \<Rightarrow> (Inl e, ev)
      | (Inr u, ev) \<Rightarrow>
          (case warm_passes env db_name k i n ws of (out, ev') \<Rightarrow> (out, ev @ ev')))"

text \<open>
  Lines 130 to 243 for one backend: the client, \<^verbatim>\<open>setup\<close>, \<^verbatim>\<open>upsert\<close>, the warm-up and the
  sweep over \<open>k\<close>. For a name that \<^verbatim>\<open>get_db\<close> does not know, \<^verbatim>\<open>db\<close> is \<^verbatim>\<open>None\<close> and
  \<^verbatim>\<open>db.setup\<close> raises \<^verbatim>\<open>AttributeError\<close> before any call on a backend.
\<close>

definition bench_db ::
  "'e externals \<Rightarrow> env \<Rightarrow> 'e setting \<Rightarrow> nat \<Rightarrow> nat \<Rightarrow> string \<Rightarrow> (error + (int \<rightharpoonup> kresult)) \<times> event list" where
  "bench_db x env cfg dimen i db_name =
     (case get_db db_name of
        None \<Rightarrow> (Inl AttributeError, [])
      | Some db \<Rightarrow>
          let (t0, t1, t2) = db_clock env i;
              ev1 = [Setup db_name (if lower db_name = ''topk'' then None else Some dimen)]
          in case setup_raises env i of
               Some e \<Rightarrow> (Inl e, ev1)
             | None \<Rightarrow>
                 let ev2 = ev1 @ [Upsert db_name (if lower db_name = ''pinecone'' then Some 200 else None)]
                 in case upsert_raises env i of
                      Some e \<Rightarrow> (Inl e, ev2)
                    | None \<Rightarrow>
                        let ingest_time = t2 - t1;
                            setup_time = t1 - t0
                        in case warm_passes env db_name (hd (topks cfg)) i (length (queries cfg))
                                  [0..<nat (max 0 (warmup cfg))] of
                             (Inl e, ev3) \<Rightarrow> (Inl e, ev2 @ ev3)
                           | (Inr u, ev3) \<Rightarrow>
                               (case run_ks x env cfg db_name setup_time ingest_time i 0 (topks cfg) Map.empty of
                                  (out, ev4) \<Rightarrow> (out, ev2 @ ev3 @ ev4)))"

text \<open>Lines 245 to 247: \<^verbatim>\<open>if db_name.lower() != "pinecone": db.teardown()\<close>\<close>

definition run_db ::
  "'e externals \<Rightarrow> env \<Rightarrow> 'e setting \<Rightarrow> nat \<Rightarrow> nat \<Rightarrow> string \<Rightarrow> (error + (int \<rightharpoonup> kresult)) \<times> event list" where
  "run_db x env cfg dimen i db_name =
     (case bench_db x env cfg dimen i db_name of
        (Inl e, ev) \<Rightarrow> (Inl e, ev)
      | (Inr res, ev) \<Rightarrow>
          if lower db_name \<noteq> ''pinecone''
          then (case teardown_raises env i of
                  Some e \<Rightarrow> (Inl e, ev @ [Teardown db_name])
                | None \<Rightarrow> (Inr res, ev @ [Teardown db_name]))
          else (Inr res, ev))"

text \<open>Lines 117 to 126, the configuration block of the results.\<close>

record hnsw =
  hnsw_M :: nat
  hnsw_efConstruction :: nat
  hnsw_ef :: nat

record run_config =
  batch_size :: nat
  hnsw_params :: hnsw
  metric :: string
  rc_model :: string
  dataset_size :: nat
  rc_repetitions :: int

definition run_config :: "'e setting \<Rightarrow> run_config" where
  "run_config cfg =
     \<lparr>batch_size = 2000,
      hnsw_params = \<lparr>hnsw_M = 16, hnsw_efConstruction = 128, hnsw_ef = 128\<rparr>,
      metric = ''COSINE'',
      rc_model = query_model cfg,
      dataset_size = length (vectors cfg),
      rc_repetitions = repetitions cfg\<rparr>"

record results =
  config :: run_config
  by_db :: "string \<rightharpoonup> (int \<rightharpoonup> kresult)"

text \<open>The loop over \<^verbatim>\<open>args.dbs\<close>. An exception leaves \<^verbatim>\<open>main\<close>: nothing catches it, and
  \<^verbatim>\<open>metrics.json\<close> is not written.\<close>

fun run_dbs ::
  "'e externals \<Rightarrow> env \<Rightarrow> 'e setting \<Rightarrow> nat \<Rightarrow> nat \<Rightarrow> string list \<Rightarrow> results
     \<Rightarrow> (error + results) \<times> event list" where
  "run_dbs x env cfg dimen i [] res = (Inr res, [])"
| "run_dbs x env cfg dimen i (db_name # rest) res =
     (case run_db x env cfg dimen i db_name of
        (Inl e, ev) \<Rightarrow> (Inl e, ev)
      | (Inr r, ev) \<Rightarrow>
          (case run_dbs x env cfg dimen (Suc i) rest (res\<lparr>by_db := (by_db res)(db_name \<mapsto> r)\<rparr>) of
             (out, ev') \<Rightarrow> (out, ev @ ev')))"

text \<open>\<^verbatim>\<open>main\<close> from line 84 to line 257: the value is the content of \<^verbatim>\<open>metrics.json\<close>, or the
  exception that ended the run. \<^verbatim>\<open>vectors.shape[1]\<close> raises for an empty data set.\<close>

definition main :: "'e externals \<Rightarrow> env \<Rightarrow> 'e setting \<Rightarrow> (error + results) \<times> event list" where
  "main x env cfg =
     (case vectors cfg of
        [] \<Rightarrow> (Inl IndexError, [])
      | v # vs \<Rightarrow>
          run_dbs x env cfg (length v) 0 (dbs cfg) \<lparr>config = run_config cfg, by_db = Map.empty\<rparr>)"


section \<open>Notions used to state the properties\<close>

text \<open>The futures of a repetition in the order in which the loop receives them, and the
  latencies of those that returned.\<close>

definition yielded ::
  "'e externals \<Rightarrow> env \<Rightarrow> 'e setting \<Rightarrow> int \<Rightarrow> pos \<Rightarrow> (error + real \<times> hit list \<times> 'e query) list" where
  "yielded x env cfg k p = as_completed env p (submit_all x env cfg k p)"

definition sample_latencies :: "(error + real \<times> hit list \<times> 'e query) list \<Rightarrow> real list" where
  "sample_latencies ys = concat (map (\<lambda>y. case y of Inl e \<Rightarrow> [] | Inr smp \<Rightarrow> [fst smp]) ys)"

definition rep_latencies :: "'e externals \<Rightarrow> env \<Rightarrow> 'e setting \<Rightarrow> int \<Rightarrow> pos \<Rightarrow> real list" where
  "rep_latencies x env cfg k p = sample_latencies (yielded x env cfg k p)"

text \<open>The span of a repetition on the clock: from the reading of line 175, before the pool
  is created, to the reading of line 218, after the last future has been collected.\<close>

definition wall_time :: "env \<Rightarrow> pos \<Rightarrow> real" where
  "wall_time env p = snd (rep_clock env p) - fst (rep_clock env p)"

text \<open>The latencies of all repetitions of one \<open>k\<close> on one backend, in the order in which they
  are appended, the first element of a list if there is one, and the throughput that a
  repetition records.\<close>

definition pooled_latencies :: "'e externals \<Rightarrow> env \<Rightarrow> 'e setting \<Rightarrow> int \<Rightarrow> nat \<Rightarrow> nat \<Rightarrow> real list" where
  "pooled_latencies x env cfg k i j =
     concat (map (\<lambda>r. rep_latencies x env cfg k (i, j, r)) [0..<nat (repetitions cfg)])"

definition first_of :: "'a list \<Rightarrow> 'a option" where
  "first_of xs = (case xs of [] \<Rightarrow> None | v # vs \<Rightarrow> Some v)"

definition rep_qps :: "env \<Rightarrow> 'e setting \<Rightarrow> pos \<Rightarrow> real" where
  "rep_qps env cfg p =
     (if wall_time env p > 0 then real (length (queries cfg)) / wall_time env p else 0)"

definition is_search :: "event \<Rightarrow> bool" where
  "is_search e = (case e of Search n k \<Rightarrow> True | _ \<Rightarrow> False)"

definition teardowns :: "event list \<Rightarrow> string list" where
  "teardowns ev = concat (map (\<lambda>e. case e of Teardown n \<Rightarrow> [n] | _ \<Rightarrow> []) ev)"

text \<open>An \<^verbatim>\<open>upsert\<close> call passes the batch size 200 to Pinecone and none to another backend.\<close>

definition upsert_as_coded :: "event \<Rightarrow> bool" where
  "upsert_as_coded e =
     (case e of
        Upsert n b \<Rightarrow> b = (if lower n = ''pinecone'' then Some 200 else None)
      | _ \<Rightarrow> True)"

section \<open>Inputs for the examples\<close>

text \<open>Three reference vectors in the plane and the query vector \<open>(1, 0)\<close>: the scores are
  \<open>0\<close>, \<open>1\<close> and \<open>1/2\<close>.\<close>

definition demo_qv :: "real list" where
  "demo_qv = [1, 0]"

definition demo_mat :: "real list list" where
  "demo_mat = [[0, 1], [1, 0], [1 / 2, 1 / 2]]"

text \<open>A backend result that carries the row identifier \<open>i\<close> in its payload.\<close>

definition hit_of :: "int \<Rightarrow> hit" where
  "hit_of i = \<lparr>hit_id = None, hit_payload = Some \<lparr>row_id = Some (PInt i), attrs = []\<rparr>\<rparr>"

text \<open>A run with one query and two repetitions on the backends \<^verbatim>\<open>qdrant\<close> and \<^verbatim>\<open>Pinecone\<close>.
  No call raises. The search of repetition \<open>r\<close> takes \<open>1 + 2 r\<close> seconds on the clock, and
  every repetition takes \<open>2\<close> seconds.\<close>

definition demo_model :: "string \<Rightarrow> real list" where
  "demo_model t = [1, 0]"

definition demo_hits_at_k :: "payload list \<Rightarrow> unit \<Rightarrow> real" where
  "demo_hits_at_k ps e = 1"

definition demo_x :: "unit externals" where
  "demo_x = \<lparr>x_np = np_ref, x_model = demo_model, x_hits_at_k = demo_hits_at_k\<rparr>"

definition demo_clock :: "nat \<Rightarrow> nat \<Rightarrow> real" where
  "demo_clock r n = (if n = 0 then 0 else 1 + 2 * real r)"

definition demo_worker :: "pos \<Rightarrow> nat \<Rightarrow> worker_obs" where
  "demo_worker p idx =
     \<lparr>w_clock = demo_clock (snd (snd p)), w_search = Inr [hit_of 1], w_done = idx\<rparr>"

definition no_error :: "nat \<Rightarrow> error option" where
  "no_error i = None"

definition demo_db_clock :: "nat \<Rightarrow> real \<times> real \<times> real" where
  "demo_db_clock i = (0, 1, 3)"

definition demo_warm_search :: "nat \<Rightarrow> nat \<Rightarrow> nat \<Rightarrow> error + hit list" where
  "demo_warm_search i w qi = Inr []"

definition demo_rep_clock :: "pos \<Rightarrow> real \<times> real" where
  "demo_rep_clock p = (0, 2)"

definition demo_shuffle_key :: "pos \<Rightarrow> nat \<Rightarrow> nat" where
  "demo_shuffle_key p idx = idx"

definition demo_env :: env where
  "demo_env =
     \<lparr>setup_raises = no_error, upsert_raises = no_error, teardown_raises = no_error,
      db_clock = demo_db_clock, warm_search = demo_warm_search, rep_clock = demo_rep_clock,
      shuffle_key = demo_shuffle_key, worker = demo_worker\<rparr>"

definition demo_q :: "unit query" where
  "demo_q = \<lparr>q_text = ''a'', q_expected = ()\<rparr>"

definition demo_cfg :: "unit setting" where
  "demo_cfg =
     \<lparr>dbs = [''qdrant'', ''Pinecone''], topk = 1, topk_sweep = None, concurrency = 1,
      repetitions = 2, warmup = 1, query_model = ''m'', vectors = demo_mat, queries = [demo_q]\<rparr>"

text \<open>What this run reports for \<^verbatim>\<open>qdrant\<close> and \<open>k = 1\<close>: the two latencies are 1 and 3.\<close>

definition demo_kresult :: kresult where
  "demo_kresult =
     \<lparr>setup_time_sec = 1, ingest_time_sec = 2,
      avg_query_latency_sec = Some 2, p50_query_latency_sec = Some 2,
      p95_query_latency_sec = Some (29 / 10), p99_query_latency_sec = Some (149 / 50),
      latency_stddev_sec = Some 1, first_query_latency_sec = Some 1,
      avg_hits_at = Some 1, avg_recall_at = Some 1, avg_qps = Some (1 / 2)\<rparr>"

text \<open>The same run with a backend name that \<^verbatim>\<open>get_db\<close> does not know in second place, and with
  no query.\<close>

definition bogus_cfg :: "unit setting" where
  "bogus_cfg = demo_cfg\<lparr>dbs := [''qdrant'', ''bogus'']\<rparr>"

definition empty_cfg :: "unit setting" where
  "empty_cfg = demo_cfg\<lparr>queries := []\<rparr>"

text \<open>The same environment with a search that raises in the second repetition.\<close>

definition failing_worker :: "pos \<Rightarrow> nat \<Rightarrow> worker_obs" where
  "failing_worker p idx =
     \<lparr>w_clock = demo_clock (snd (snd p)),
      w_search = (if snd (snd p) = 1 then Inl BackendError else Inr [hit_of 1]),
      w_done = idx\<rparr>"

definition failing_env :: env where
  "failing_env = demo_env\<lparr>worker := failing_worker\<rparr>"

text \<open>A worker whose clock is set back from 5 to 3 while the search runs, and a search that
  finds nothing.\<close>

definition set_back_clock :: "nat \<Rightarrow> real" where
  "set_back_clock n = (if n = 0 then 5 else 3)"

definition set_back_thread :: thread where
  "set_back_thread = \<lparr>readings = set_back_clock, reads = 0, calls = []\<rparr>"

definition demo_search :: "real list \<Rightarrow> int \<Rightarrow> error + hit list" where
  "demo_search q_vec top_k = Inr []"










section \<open>The numpy contract and the reference implementation\<close>

lemma perm_length: "distinct idx \<Longrightarrow> set idx = {0..<n} \<Longrightarrow> length idx = n"
  by (metis card_atLeastLessThan diff_zero distinct_card)

lemma argsort_ok_length: "argsort_ok a idx \<Longrightarrow> length idx = length a"
  by (simp add: argsort_ok_def perm_length)

lemma argsort_neg_descending:
  assumes "argsort_ok (map uminus s) idx"
  shows "descending (map (\<lambda>i. s ! i) idx)"
proof -
  from assms have in_range: "\<forall>i\<in>set idx. i < length s"
    and srt: "sorted (map (\<lambda>i. map uminus s ! i) idx)"
    by (auto simp: argsort_ok_def)
  have "map (\<lambda>i. map uminus s ! i) idx = map (\<lambda>i. - (s ! i)) idx"
    using in_range by (intro map_cong) auto
  with srt have "sorted_wrt (\<lambda>i j. - (s ! i) \<le> - (s ! j)) idx"
    by (simp add: sorted_map)
  then have "sorted_wrt (\<lambda>i j. s ! j \<le> s ! i) idx"
    by simp
  then show ?thesis
    by (simp add: descending_def sorted_wrt_map)
qed

lemma argsort_ref_ok: "argsort_ok a (argsort_ref a)"
  by (simp add: argsort_ok_def argsort_ref_def)

lemma argpartition_ref_ok:
  assumes "kth < length a"
  shows "argpartition_ok a kth (argsort_ref a)"
proof -
  let ?idx = "argsort_ref a"
  have ok: "distinct ?idx" "set ?idx = {0..<length a}" "sorted (map (\<lambda>i. a ! i) ?idx)"
    using argsort_ref_ok [of a] by (auto simp: argsort_ok_def)
  have len: "length ?idx = length a"
    using argsort_ref_ok argsort_ok_length by blast
  have srt: "sorted_wrt (\<lambda>i j. a ! i \<le> a ! j) ?idx"
    using ok(3) by (simp add: sorted_map)
  have "list_all (\<lambda>i. a ! i \<le> a ! (?idx ! kth)) (take kth ?idx)"
    unfolding list_all_length
  proof (intro allI impI)
    fix m assume "m < length (take kth ?idx)"
    then have "m < kth" by simp
    with assms len have "a ! (?idx ! m) \<le> a ! (?idx ! kth)"
      using sorted_wrt_nth_less [OF srt, of m kth] by simp
    with \<open>m < kth\<close> show "a ! (take kth ?idx ! m) \<le> a ! (?idx ! kth)" by simp
  qed
  moreover have "list_all (\<lambda>i. a ! (?idx ! kth) \<le> a ! i) (drop (Suc kth) ?idx)"
    unfolding list_all_length
  proof (intro allI impI)
    fix m assume m: "m < length (drop (Suc kth) ?idx)"
    then have "Suc kth + m < length ?idx" by simp
    then have "a ! (?idx ! kth) \<le> a ! (?idx ! (Suc kth + m))"
      using sorted_wrt_nth_less [OF srt, of kth "Suc kth + m"] by simp
    with m show "a ! (?idx ! kth) \<le> a ! (drop (Suc kth) ?idx ! m)" by simp
  qed
  ultimately show ?thesis
    using ok by (simp add: argpartition_ok_def)
qed

lemma np_ref_ok: "numpy_ok np_ref"
  by (simp add: numpy_ok_def np_ref_def argsort_ref_ok argpartition_ref_ok)

lemma nth_image_full: "(\<lambda>p. xs ! p) ` {0..<length xs} = set xs"
  using nth_image [of "length xs" xs] by simp

lemma partition_branch:
  assumes part: "argpartition_ok (map uminus s) kth part"
    and kth: "kth < length s"
    and srt: "argsort_ok (map uminus (map (\<lambda>i. s ! i) (take kth part))) perm"
  shows "fancy s (take kth part) = Inr (map (\<lambda>i. s ! i) (take kth part))"
    and "fancy (take kth part) perm = Inr (map (\<lambda>p. take kth part ! p) perm)"
    and "length (map (\<lambda>p. take kth part ! p) perm) = kth"
    and "distinct (map (\<lambda>p. take kth part ! p) perm)"
    and "set (map (\<lambda>p. take kth part ! p) perm) = set (take kth part)"
    and "set (take kth part) \<subseteq> {0..<length s}"
    and "descending (map (\<lambda>i. s ! i) (map (\<lambda>p. take kth part ! p) perm))"
    and "\<forall>i\<in>set (take kth part). \<forall>j<length s. j \<notin> set (take kth part) \<longrightarrow> s ! j \<le> s ! i"
proof -
  let ?a = "map uminus s" and ?idx = "take kth part"
  let ?best = "map (\<lambda>i. s ! i) ?idx"
  from part have dist: "distinct part" and setp: "set part = {0..<length s}"
    and low: "list_all (\<lambda>i. ?a ! i \<le> ?a ! (part ! kth)) ?idx"
    and high: "list_all (\<lambda>i. ?a ! (part ! kth) \<le> ?a ! i) (drop (Suc kth) part)"
    by (simp_all add: argpartition_ok_def)
  have lenp: "length part = length s"
    using dist setp by (rule perm_length)
  have len_idx: "length ?idx = kth"
    using kth lenp by simp
  have dist_idx: "distinct ?idx"
    using dist by simp
  show sub: "set ?idx \<subseteq> {0..<length s}"
    using setp set_take_subset [of kth part] by blast
  then show "fancy s ?idx = Inr ?best"
    by (auto simp: fancy_def list_all_iff)
  from srt have distp: "distinct perm" and set_perm: "set perm = {0..<kth}"
    using kth lenp by (simp_all add: argsort_ok_def)
  show "fancy ?idx perm = Inr (map (\<lambda>p. ?idx ! p) perm)"
    using set_perm len_idx by (auto simp: fancy_def list_all_iff)
  show "length (map (\<lambda>p. ?idx ! p) perm) = kth"
    using distp set_perm by (simp add: perm_length)
  have "inj_on (\<lambda>p. ?idx ! p) (set perm)"
    using dist set_perm kth lenp by (auto simp: inj_on_def nth_eq_iff_index_eq)
  with distp show "distinct (map (\<lambda>p. ?idx ! p) perm)"
    by (simp add: distinct_map)
  show "set (map (\<lambda>p. ?idx ! p) perm) = set ?idx"
  proof -
    have "set (map (\<lambda>p. ?idx ! p) perm) = (\<lambda>p. ?idx ! p) ` {0..<length ?idx}"
      using set_perm len_idx by simp
    also have "\<dots> = set ?idx"
      by (rule nth_image_full)
    finally show ?thesis .
  qed
  have "map (\<lambda>p. ?best ! p) perm = map (\<lambda>p. s ! (?idx ! p)) perm"
  proof (rule map_cong [OF refl])
    fix p assume "p \<in> set perm"
    then have "p < length ?idx" using set_perm len_idx by simp
    then show "?best ! p = s ! (?idx ! p)" by (rule nth_map)
  qed
  with argsort_neg_descending [OF srt]
  have "descending (map (\<lambda>p. s ! (?idx ! p)) perm)" by simp
  then show "descending (map (\<lambda>i. s ! i) (map (\<lambda>p. ?idx ! p) perm))"
    by (simp add: comp_def)
  show "\<forall>i\<in>set ?idx. \<forall>j<length s. j \<notin> set ?idx \<longrightarrow> s ! j \<le> s ! i"
  proof (intro ballI allI impI)
    fix i j assume i: "i \<in> set ?idx" and j: "j < length s" "j \<notin> set ?idx"
    have pk: "part ! kth < length s"
      using setp kth lenp by (metis atLeastLessThan_iff nth_mem)
    from i sub have il: "i < length s" by auto
    from i low have "?a ! i \<le> ?a ! (part ! kth)"
      by (simp add: list_all_iff)
    with il pk have 1: "s ! (part ! kth) \<le> s ! i" by simp
    from j setp have "j \<in> set part" by simp
    then have "j \<in> set ?idx \<union> set (drop kth part)"
      by (metis append_take_drop_id set_append)
    with j have "j \<in> set (drop kth part)" by simp
    moreover have "drop kth part = part ! kth # drop (Suc kth) part"
      using kth lenp by (simp add: Cons_nth_drop_Suc)
    ultimately have "j = part ! kth \<or> j \<in> set (drop (Suc kth) part)" by simp
    then have "s ! j \<le> s ! (part ! kth)"
    proof
      assume "j = part ! kth" then show ?thesis by simp
    next
      assume "j \<in> set (drop (Suc kth) part)"
      with high have "?a ! (part ! kth) \<le> ?a ! j" by (simp add: list_all_iff)
      with j pk show ?thesis by simp
    qed
    with 1 show "s ! j \<le> s ! i" by simp
  qed
qed


lemma exact_topk_sound:
  assumes np: "numpy_ok np"
    and shape: "list_all (\<lambda>row. length row = length qv) mat"
    and k: "0 \<le> k"
  shows "\<exists>idx. exact_topk_indices np qv mat k = Inr idx \<and>
           length idx = min (nat k) (length mat) \<and>
           distinct idx \<and> set idx \<subseteq> {0..<length mat} \<and>
           descending (map (score qv mat) idx) \<and>
           (\<forall>i\<in>set idx. \<forall>j<length mat. j \<notin> set idx \<longrightarrow> score qv mat j \<le> score qv mat i) \<and>
           (int (length mat) \<le> k \<longrightarrow> set idx = {0..<length mat})"
proof -
  define sims where "sims = map (\<lambda>row. dot row qv) mat"
  have mv: "matvec mat qv = Inr sims"
    using shape by (simp add: matvec_def sims_def)
  have len: "length sims = length mat"
    by (simp add: sims_def)
  have sc: "i < length mat \<Longrightarrow> sims ! i = score qv mat i" for i
    by (simp add: sims_def score_def)
  have sc_map: "set idx \<subseteq> {0..<length mat} \<Longrightarrow> map (\<lambda>i. sims ! i) idx = map (score qv mat) idx" for idx
    by (rule map_cong) (auto simp: sc)
  show ?thesis
  proof (cases "int (length mat) \<le> k")
    case True
    let ?idx = "argsort np (map uminus sims)"
    have ok: "argsort_ok (map uminus sims) ?idx"
      using np by (simp add: numpy_ok_def)
    then have d: "distinct ?idx" and st: "set ?idx = {0..<length mat}"
      by (simp_all add: argsort_ok_def len)
    have "exact_topk_indices np qv mat k = Inr ?idx"
      using True by (simp add: exact_topk_indices_def mv len)
    moreover have "length ?idx = min (nat k) (length mat)"
      using argsort_ok_length [OF ok] True by (simp add: len)
    moreover have "descending (map (score qv mat) ?idx)"
      using argsort_neg_descending [OF ok] sc_map [of ?idx] st by simp
    ultimately show ?thesis
      using d st by auto
  next
    case False
    define kth where "kth = nat k"
    have kth: "kth < length sims" "int kth = k"
      using False k by (simp_all add: kth_def len)
    define part where "part = argpartition np (map uminus sims) kth"
    have pok: "argpartition_ok (map uminus sims) kth part"
      using np kth by (simp add: numpy_ok_def part_def)
    define idx where "idx = take kth part"
    define perm where "perm = argsort np (map uminus (map (\<lambda>i. sims ! i) idx))"
    have sok: "argsort_ok (map uminus (map (\<lambda>i. sims ! i) (take kth part))) perm"
      using np by (simp add: numpy_ok_def perm_def idx_def)
    note pb = partition_branch [OF pok kth(1) sok, folded idx_def]
    define res where "res = map (\<lambda>p. idx ! p) perm"
    have "np_argpartition np (map uminus sims) k = Inr part"
      using False k by (simp add: np_argpartition_def Let_def part_def kth_def len)
    moreover have "slice_to part k = idx"
      using k by (simp add: slice_to_def idx_def kth_def)
    moreover have "argsort np (map (uminus \<circ> (\<lambda>i. sims ! i)) idx) = perm"
      by (simp add: perm_def)
    ultimately have run: "exact_topk_indices np qv mat k = Inr res"
      using False pb(1,2)
      by (simp add: exact_topk_indices_def mv len res_def)
    have sub: "set res \<subseteq> {0..<length mat}"
      using pb(5,6) by (simp add: res_def len)
    have "length res = min (nat k) (length mat)"
      using pb(3) kth by (simp add: res_def kth_def len)
    moreover have "distinct res"
      using pb(4) by (simp add: res_def)
    moreover have "descending (map (score qv mat) res)"
    proof -
      have "descending (map (\<lambda>i. sims ! i) res)"
        using pb(7) unfolding res_def .
      then show ?thesis
        unfolding sc_map [OF sub] .
    qed
    moreover have "\<forall>i\<in>set res. \<forall>j<length mat. j \<notin> set res \<longrightarrow> score qv mat j \<le> score qv mat i"
    proof (intro ballI allI impI)
      fix i j assume a: "i \<in> set res" "j < length mat" "j \<notin> set res"
      then have "i \<in> set idx" "j \<notin> set idx" "i < length mat"
        using pb(5) sub by (auto simp: res_def)
      with pb(8) a(2) have "sims ! j \<le> sims ! i" by (simp add: len)
      with a(2) \<open>i < length mat\<close> show "score qv mat j \<le> score qv mat i"
        by (simp add: sc)
    qed
    ultimately show ?thesis
      using run sub False by auto
  qed
qed

section \<open>C1: the exact baseline\<close>

text \<open>
  C1. For a query vector and a reference matrix whose rows have the length of the query, and
  \<open>k \<ge> 0\<close>, \<open>exact_topk_indices\<close> returns \<open>min k N\<close> distinct indices below \<open>N\<close>, in
  descending order of their dot product with the query, and no index left out has a greater
  score than an index returned; for \<open>k \<ge> N\<close> these are all \<open>N\<close> indices, each once. The
  result is a function of the query, the matrix, \<open>k\<close> and the two numpy functions, so it is
  the same on every call with the same input.
\<close>

theorem exact_topk_indices_correct:
  assumes "numpy_ok np"
    and "list_all (\<lambda>row. length row = length qv) mat"
    and "0 \<le> k"
  shows "\<exists>idx. exact_topk_indices np qv mat k = Inr idx \<and>
           length idx = min (nat k) (length mat) \<and>
           distinct idx \<and> set idx \<subseteq> {0..<length mat} \<and>
           descending (map (score qv mat) idx) \<and>
           (\<forall>i\<in>set idx. \<forall>j<length mat. j \<notin> set idx \<longrightarrow> score qv mat j \<le> score qv mat i) \<and>
           (int (length mat) \<le> k \<longrightarrow> set idx = {0..<length mat})"
  using assms by (rule exact_topk_sound)

theorem exact_topk_indices_correct_witness:
  "numpy_ok np_ref \<and> list_all (\<lambda>row. length row = length demo_qv) demo_mat \<and> (0::int) \<le> 2 \<and>
   exact_topk_indices np_ref demo_qv demo_mat 2 = Inr [1, 2] \<and>
   (\<exists>idx. exact_topk_indices np_ref demo_qv demo_mat 2 = Inr idx \<and>
           length idx = min (nat 2) (length demo_mat) \<and>
           distinct idx \<and> set idx \<subseteq> {0..<length demo_mat} \<and>
           descending (map (score demo_qv demo_mat) idx) \<and>
           (\<forall>i\<in>set idx. \<forall>j<length demo_mat. j \<notin> set idx \<longrightarrow>
               score demo_qv demo_mat j \<le> score demo_qv demo_mat i) \<and>
           (int (length demo_mat) \<le> 2 \<longrightarrow> set idx = {0..<length demo_mat}))"
proof -
  have shape: "list_all (\<lambda>row. length row = length demo_qv) demo_mat"
    by (simp add: demo_qv_def demo_mat_def)
  have run: "exact_topk_indices np_ref demo_qv demo_mat 2 = Inr [1, 2]"
    by (simp add: exact_topk_indices_def matvec_def dot_def np_ref_def argsort_ref_def
        np_argpartition_def slice_to_def fancy_def upt_rec demo_qv_def demo_mat_def)
  show ?thesis
    using exact_topk_indices_correct [OF np_ref_ok shape, of 2] np_ref_ok shape run by simp
qed

section \<open>The calls of a run on the backends\<close>

lemma run_rep_events: "run_rep x env cfg n k p a = (out, ev) \<Longrightarrow> list_all is_search ev"
  by (auto simp: run_rep_def Let_def is_search_def list_all_iff split: prod.splits sum.splits if_splits)

lemma run_reps_events: "run_reps x env cfg n k i j rs a = (out, ev) \<Longrightarrow> list_all is_search ev"
proof (induction rs arbitrary: a out ev)
  case Nil
  then show ?case by simp
next
  case (Cons r rs)
  then show ?case
    by (auto split: prod.splits sum.splits dest: run_rep_events)
qed

lemma run_k_events: "run_k x env cfg n st it i j k = (out, ev) \<Longrightarrow> list_all is_search ev"
  by (auto simp: run_k_def split: prod.splits sum.splits dest: run_reps_events)

lemma run_ks_events: "run_ks x env cfg n st it i j ks res = (out, ev) \<Longrightarrow> list_all is_search ev"
proof (induction ks arbitrary: j res out ev)
  case Nil
  then show ?case by simp
next
  case (Cons k ks)
  then show ?case
    by (auto split: prod.splits sum.splits dest: run_k_events)
qed

lemma warm_queries_events: "warm_queries env n k i w qis = (out, ev) \<Longrightarrow> list_all is_search ev"
  by (induction qis arbitrary: out ev) (auto simp: is_search_def split: prod.splits sum.splits)

lemma warm_passes_events: "warm_passes env n k i m ws = (out, ev) \<Longrightarrow> list_all is_search ev"
proof (induction ws arbitrary: out ev)
  case Nil
  then show ?case by simp
next
  case (Cons w ws)
  then show ?case
    by (auto split: prod.splits sum.splits dest: warm_queries_events)
qed

lemma bench_db_events:
  assumes "bench_db x env cfg d i n = (out, ev)"
  shows "ev = [] \<or>
   ev = [Setup n (if lower n = ''topk'' then None else Some d)] \<or>
   (\<exists>ss. list_all is_search ss \<and>
         ev = Setup n (if lower n = ''topk'' then None else Some d) #
              Upsert n (if lower n = ''pinecone'' then Some 200 else None) # ss)"
  using assms
  by (auto simp: bench_db_def Let_def split: prod.splits sum.splits option.splits
      dest: warm_passes_events run_ks_events)

lemma run_db_events:
  "snd (run_db x env cfg d i n) =
     snd (bench_db x env cfg d i n) @
     (if isl (fst (bench_db x env cfg d i n)) \<or> lower n = ''pinecone'' then [] else [Teardown n])"
  by (auto simp: run_db_def split: prod.splits sum.splits option.splits)


lemma teardowns_append: "teardowns (a @ b) = teardowns a @ teardowns b"
  by (simp add: teardowns_def)

lemma teardowns_searches: "list_all is_search ss \<Longrightarrow> teardowns ss = []"
  by (induction ss) (auto simp: teardowns_def is_search_def split: event.splits)

lemma bench_db_teardowns: "bench_db x env cfg d i n = (out, ev) \<Longrightarrow> teardowns ev = []"
  using bench_db_events [of x env cfg d i n out ev]
  by (auto simp: teardowns_searches) (simp_all add: teardowns_def teardowns_searches [unfolded teardowns_def])

lemma run_db_teardowns:
  assumes "run_db x env cfg d i n = (out, ev)"
  shows "list_all (\<lambda>m. lower m \<noteq> ''pinecone'') (teardowns ev)"
    and "\<not> isl out \<Longrightarrow> teardowns ev = (if lower n \<noteq> ''pinecone'' then [n] else [])"
proof -
  obtain bout bev where b: "bench_db x env cfg d i n = (bout, bev)"
    by fastforce
  have ev: "ev = bev @ (if isl bout \<or> lower n = ''pinecone'' then [] else [Teardown n])"
    using run_db_events [of x env cfg d i n] assms b by simp
  have t: "teardowns bev = []"
    using b by (rule bench_db_teardowns)
  show "list_all (\<lambda>m. lower m \<noteq> ''pinecone'') (teardowns ev)"
    by (simp add: ev teardowns_append t) (simp add: teardowns_def)
  assume "\<not> isl out"
  then have "\<not> isl bout"
    using assms b by (auto simp: run_db_def split: sum.splits if_splits option.splits)
  then show "teardowns ev = (if lower n \<noteq> ''pinecone'' then [n] else [])"
    by (simp add: ev teardowns_append t) (simp add: teardowns_def)
qed

lemma run_dbs_teardowns_never:
  "run_dbs x env cfg d i names res = (out, ev) \<Longrightarrow>
     list_all (\<lambda>m. lower m \<noteq> ''pinecone'') (teardowns ev)"
proof (induction names arbitrary: i res out ev)
  case Nil
  then show ?case by (simp add: teardowns_def)
next
  case (Cons n names)
  then show ?case
    by (auto simp: teardowns_append split: prod.splits sum.splits dest: run_db_teardowns(1))
qed

lemma run_dbs_teardowns_once:
  "run_dbs x env cfg d i names res = (Inr res', ev) \<Longrightarrow>
     teardowns ev = filter (\<lambda>m. lower m \<noteq> ''pinecone'') names"
proof (induction names arbitrary: i res ev)
  case Nil
  then show ?case by (simp add: teardowns_def)
next
  case (Cons n names)
  obtain o1 e1 where r1: "run_db x env cfg d i n = (o1, e1)"
    by fastforce
  with Cons.prems obtain r where o1: "o1 = Inr r"
    by (cases o1) auto
  obtain o2 e2 where r2:
    "run_dbs x env cfg d (Suc i) names (res\<lparr>by_db := (by_db res)(n \<mapsto> r)\<rparr>) = (o2, e2)"
    by fastforce
  from Cons.prems r1 o1 r2 have ev: "ev = e1 @ e2" and o2: "o2 = Inr res'"
    by simp_all
  have "teardowns e1 = (if lower n \<noteq> ''pinecone'' then [n] else [])"
    using run_db_teardowns(2) [OF r1] o1 by simp
  moreover have "teardowns e2 = filter (\<lambda>m. lower m \<noteq> ''pinecone'') names"
    using Cons.IH r2 o2 by simp
  ultimately show ?case
    by (simp add: ev teardowns_append)
qed

lemma upsert_as_coded_searches: "list_all is_search ss \<Longrightarrow> list_all upsert_as_coded ss"
  by (induction ss) (auto simp: upsert_as_coded_def is_search_def split: event.splits)

lemma run_db_upserts: "run_db x env cfg d i n = (out, ev) \<Longrightarrow> list_all upsert_as_coded ev"
proof -
  assume a: "run_db x env cfg d i n = (out, ev)"
  obtain bout bev where b: "bench_db x env cfg d i n = (bout, bev)"
    by fastforce
  have ev: "ev = bev @ (if isl bout \<or> lower n = ''pinecone'' then [] else [Teardown n])"
    using run_db_events [of x env cfg d i n] a b by simp
  have "list_all upsert_as_coded bev"
    using bench_db_events [OF b]
    by (auto simp: upsert_as_coded_searches) (simp_all add: upsert_as_coded_def)
  then show ?thesis
    by (simp add: ev) (simp add: upsert_as_coded_def)
qed

lemma run_dbs_upserts:
  "run_dbs x env cfg d i names res = (out, ev) \<Longrightarrow> list_all upsert_as_coded ev"
proof (induction names arbitrary: i res out ev)
  case Nil
  then show ?case by simp
next
  case (Cons n names)
  then show ?case
    by (auto split: prod.splits sum.splits dest: run_db_upserts)
qed

lemma run_dbs_config:
  "run_dbs x env cfg d i names res = (Inr res', ev) \<Longrightarrow> config res' = config res"
proof (induction names arbitrary: i res ev)
  case Nil
  then show ?case by simp
next
  case (Cons n names)
  then show ?case
    by (fastforce split: prod.splits sum.splits)
qed

section \<open>C9: the recorded batch size\<close>

text \<open>The definitions that evaluate a run on the inputs of the examples.\<close>

lemmas demo_defs = demo_cfg_def demo_env_def demo_x_def demo_q_def demo_mat_def demo_model_def demo_hits_at_k_def
  demo_clock_def demo_worker_def no_error_def demo_db_clock_def demo_warm_search_def demo_rep_clock_def demo_shuffle_key_def
  hit_of_def

lemmas run_defs = main_def run_db_def bench_db_def get_db_def lower_def lower_char_def topks_def
     upt_rec run_k_def run_rep_def submit_all_def as_completed_def one_query_def time_time_def worker_thread_def embed_query_def
     process_sample_def payloads_of_def recall_at_k_def exact_topk_indices_def matvec_def dot_def np_ref_def
     argsort_ref_def np_argpartition_def slice_to_def fancy_def recall_of_def res_ids_int_def res_ids_str_def as_int_def get_row_id_def
     py_str_def str_int_def str_nat.simps acc0_def summarise_def stat_def mean_def percentile_def np_std_def

lemma demo_trace:
  "snd (main demo_x demo_env demo_cfg) =
     [Setup ''qdrant'' (Some 2), Upsert ''qdrant'' None,
      Search ''qdrant'' 1, Search ''qdrant'' 1, Search ''qdrant'' 1, Teardown ''qdrant'',
      Setup ''Pinecone'' (Some 2), Upsert ''Pinecone'' (Some 200),
      Search ''Pinecone'' 1, Search ''Pinecone'' 1, Search ''Pinecone'' 1]"
  by (simp add: demo_defs run_defs)

lemma demo_succeeds: "\<not> isl (fst (main demo_x demo_env demo_cfg))"
  by (simp add: demo_defs run_defs)

text \<open>
  C9. The configuration block of every run records the batch size 2000. Every \<^verbatim>\<open>upsert\<close>
  call of the run passes the batch size 200 when the lowercased backend name is
  \<^verbatim>\<open>pinecone\<close> and passes none otherwise: no \<^verbatim>\<open>upsert\<close> is given the recorded batch size.
\<close>

theorem recorded_batch_size_not_used:
  "batch_size (run_config cfg) = 2000 \<and>
   (\<forall>res. fst (main x env cfg) = Inr res \<longrightarrow> batch_size (config res) = 2000) \<and>
   list_all upsert_as_coded (snd (main x env cfg)) \<and>
   (\<forall>n b. Upsert n b \<in> set (snd (main x env cfg)) \<longrightarrow>
      b = (if lower n = ''pinecone'' then Some 200 else None) \<and>
      b \<noteq> Some (batch_size (run_config cfg)))"
proof -
  have bs: "batch_size (run_config cfg) = 2000"
    by (simp add: run_config_def)
  have cf: "batch_size (config res) = 2000" if "fst (main x env cfg) = Inr res" for res
  proof (cases "vectors cfg")
    case Nil
    with that show ?thesis by (simp add: main_def)
  next
    case (Cons v vs)
    with that obtain ev where
      "run_dbs x env cfg (length v) 0 (dbs cfg) \<lparr>config = run_config cfg, by_db = Map.empty\<rparr> = (Inr res, ev)"
      by (cases "run_dbs x env cfg (length v) 0 (dbs cfg) \<lparr>config = run_config cfg, by_db = Map.empty\<rparr>")
        (simp add: main_def)
    from run_dbs_config [OF this] bs show ?thesis by simp
  qed
  have ups: "list_all upsert_as_coded (snd (main x env cfg))"
  proof (cases "vectors cfg")
    case Nil
    then show ?thesis by (simp add: main_def)
  next
    case (Cons v vs)
    then show ?thesis
      using run_dbs_upserts [of x env cfg "length v" 0 "dbs cfg" _ "fst (main x env cfg)" "snd (main x env cfg)"]
      by (simp add: main_def)
  qed
  have "b = (if lower n = ''pinecone'' then Some 200 else None) \<and> b \<noteq> Some (batch_size (run_config cfg))"
    if "Upsert n b \<in> set (snd (main x env cfg))" for n b
  proof -
    from ups that have "upsert_as_coded (Upsert n b)"
      by (simp add: list_all_iff)
    then show ?thesis
      by (simp add: upsert_as_coded_def bs)
  qed
  with bs cf ups show ?thesis
    by blast
qed

theorem recorded_batch_size_not_used_witness:
  "(\<exists>res. fst (main demo_x demo_env demo_cfg) = Inr res \<and> batch_size (config res) = 2000) \<and>
   Upsert ''qdrant'' None \<in> set (snd (main demo_x demo_env demo_cfg)) \<and>
   Upsert ''Pinecone'' (Some 200) \<in> set (snd (main demo_x demo_env demo_cfg)) \<and>
   Some 200 \<noteq> Some (batch_size (run_config demo_cfg)) \<and>
   None \<noteq> Some (batch_size (run_config demo_cfg))"
proof -
  obtain res where res: "fst (main demo_x demo_env demo_cfg) = Inr res"
    using demo_succeeds by (cases "fst (main demo_x demo_env demo_cfg)") auto
  have q: "Upsert ''qdrant'' None \<in> set (snd (main demo_x demo_env demo_cfg))"
    and p: "Upsert ''Pinecone'' (Some 200) \<in> set (snd (main demo_x demo_env demo_cfg))"
    by (simp_all add: demo_trace)
  note inst = recorded_batch_size_not_used [of demo_cfg demo_x demo_env]
  from inst res have "batch_size (config res) = 2000" by blast
  moreover from inst q have "None \<noteq> Some (batch_size (run_config demo_cfg))" by blast
  moreover from inst p have "Some 200 \<noteq> Some (batch_size (run_config demo_cfg))" by blast
  ultimately show ?thesis
    using res q p by blast
qed

section \<open>C10: teardown\<close>

text \<open>
  C10. When the sweep over \<open>k\<close> of a backend has completed, \<^verbatim>\<open>teardown\<close> is called once, as
  the last call on that backend, if its lowercased name is not \<^verbatim>\<open>pinecone\<close>; before that
  point it is not called. For a backend whose lowercased name is \<^verbatim>\<open>pinecone\<close> it is never
  called, and after \<^verbatim>\<open>setup\<close> and \<^verbatim>\<open>upsert\<close> the run only searches it. So a run that
  succeeds has torn down the backends that are not Pinecone, each once and in order, and no
  run tears down Pinecone.
\<close>

theorem teardown_unless_pinecone:
  "teardowns (snd (bench_db x env cfg d i n)) = [] \<and>
   (\<not> isl (fst (bench_db x env cfg d i n)) \<and> lower n \<noteq> ''pinecone'' \<longrightarrow>
      snd (run_db x env cfg d i n) = snd (bench_db x env cfg d i n) @ [Teardown n]) \<and>
   (lower n = ''pinecone'' \<longrightarrow>
      teardowns (snd (run_db x env cfg d i n)) = [] \<and>
      list_all is_search (drop 2 (snd (run_db x env cfg d i n)))) \<and>
   (\<forall>res. fst (main x env cfg) = Inr res \<longrightarrow>
      teardowns (snd (main x env cfg)) = filter (\<lambda>m. lower m \<noteq> ''pinecone'') (dbs cfg)) \<and>
   list_all (\<lambda>m. lower m \<noteq> ''pinecone'') (teardowns (snd (main x env cfg)))"
proof -
  obtain bout bev where b: "bench_db x env cfg d i n = (bout, bev)"
    by fastforce
  have ev: "snd (run_db x env cfg d i n) =
      bev @ (if isl bout \<or> lower n = ''pinecone'' then [] else [Teardown n])"
    using run_db_events [of x env cfg d i n] b by simp
  have t: "teardowns bev = []"
    using b by (rule bench_db_teardowns)
  have pine: "list_all is_search (drop 2 (snd (run_db x env cfg d i n)))" if "lower n = ''pinecone''"
    using bench_db_events [OF b] that by (auto simp: ev)
  have ok: "teardowns (snd (main x env cfg)) = filter (\<lambda>m. lower m \<noteq> ''pinecone'') (dbs cfg)"
    if "fst (main x env cfg) = Inr res" for res
  proof (cases "vectors cfg")
    case Nil
    with that show ?thesis by (simp add: main_def)
  next
    case (Cons v vs)
    with that have
      "run_dbs x env cfg (length v) 0 (dbs cfg) \<lparr>config = run_config cfg, by_db = Map.empty\<rparr> =
         (Inr res, snd (main x env cfg))"
      by (cases "run_dbs x env cfg (length v) 0 (dbs cfg) \<lparr>config = run_config cfg, by_db = Map.empty\<rparr>")
        (simp add: main_def)
    then show ?thesis by (rule run_dbs_teardowns_once)
  qed
  have never: "list_all (\<lambda>m. lower m \<noteq> ''pinecone'') (teardowns (snd (main x env cfg)))"
  proof (cases "vectors cfg")
    case Nil
    then show ?thesis by (simp add: main_def teardowns_def)
  next
    case (Cons v vs)
    then show ?thesis
      using run_dbs_teardowns_never [of x env cfg "length v" 0 "dbs cfg" _ "fst (main x env cfg)" "snd (main x env cfg)"]
      by (simp add: main_def)
  qed
  show ?thesis
    using t pine ok never by (simp add: b ev teardowns_append)
qed

theorem teardown_unless_pinecone_witness:
  "\<not> isl (fst (bench_db demo_x demo_env demo_cfg 2 0 ''qdrant'')) \<and> lower ''qdrant'' \<noteq> ''pinecone'' \<and>
   snd (run_db demo_x demo_env demo_cfg 2 0 ''qdrant'') =
     snd (bench_db demo_x demo_env demo_cfg 2 0 ''qdrant'') @ [Teardown ''qdrant''] \<and>
   lower ''Pinecone'' = ''pinecone'' \<and>
   teardowns (snd (run_db demo_x demo_env demo_cfg 2 1 ''Pinecone'')) = [] \<and>
   list_all is_search (drop 2 (snd (run_db demo_x demo_env demo_cfg 2 1 ''Pinecone''))) \<and>
   (\<exists>res. fst (main demo_x demo_env demo_cfg) = Inr res) \<and>
   teardowns (snd (main demo_x demo_env demo_cfg)) = [''qdrant'']"
proof -
  obtain res where res: "fst (main demo_x demo_env demo_cfg) = Inr res"
    using demo_succeeds by (cases "fst (main demo_x demo_env demo_cfg)") auto
  have q: "\<not> isl (fst (bench_db demo_x demo_env demo_cfg 2 0 ''qdrant''))"
    by (simp add: demo_defs run_defs)
  have lq: "lower ''qdrant'' \<noteq> ''pinecone''" and lp: "lower ''Pinecone'' = ''pinecone''"
    by (simp_all add: lower_def lower_char_def)
  have f: "filter (\<lambda>m. lower m \<noteq> ''pinecone'') (dbs demo_cfg) = [''qdrant'']"
    by (simp add: demo_cfg_def lower_def lower_char_def)
  from teardown_unless_pinecone [of demo_x demo_env demo_cfg 2 0 "''qdrant''"] q lq
  have 1: "snd (run_db demo_x demo_env demo_cfg 2 0 ''qdrant'') =
     snd (bench_db demo_x demo_env demo_cfg 2 0 ''qdrant'') @ [Teardown ''qdrant'']"
    and "teardowns (snd (main demo_x demo_env demo_cfg)) = filter (\<lambda>m. lower m \<noteq> ''pinecone'') (dbs demo_cfg)"
    using res by blast+
  moreover from teardown_unless_pinecone [of demo_x demo_env demo_cfg 2 1 "''Pinecone''"] lp
  have "teardowns (snd (run_db demo_x demo_env demo_cfg 2 1 ''Pinecone'')) = []"
    and "list_all is_search (drop 2 (snd (run_db demo_x demo_env demo_cfg 2 1 ''Pinecone'')))"
    by blast+
  ultimately show ?thesis
    using res q lq lp f by simp
qed

section \<open>C8: an unsupported backend name\<close>

lemma run_rep_dbs: "run_rep x env (cfg\<lparr>dbs := ns\<rparr>) n k p a = run_rep x env cfg n k p a"
proof -
  have "process_sample x (cfg\<lparr>dbs := ns\<rparr>) n k = process_sample x cfg n k"
    by (simp add: process_sample_def fun_eq_iff Let_def cong: sum.case_cong)
  then show ?thesis
    by (simp add: run_rep_def submit_all_def Let_def cong: sum.case_cong prod.case_cong option.case_cong list.case_cong if_cong)
qed

lemma run_reps_dbs: "run_reps x env (cfg\<lparr>dbs := ns\<rparr>) n k i j rs a = run_reps x env cfg n k i j rs a"
  by (induction rs arbitrary: a) (simp_all add: run_rep_dbs cong: sum.case_cong prod.case_cong)

lemma run_k_dbs: "run_k x env (cfg\<lparr>dbs := ns\<rparr>) n st it i j k = run_k x env cfg n st it i j k"
  by (simp add: run_k_def run_reps_dbs cong: sum.case_cong prod.case_cong option.case_cong list.case_cong if_cong)

lemma run_ks_dbs:
  "run_ks x env (cfg\<lparr>dbs := ns\<rparr>) n st it i j ks res = run_ks x env cfg n st it i j ks res"
  by (induction ks arbitrary: j res) (simp_all add: run_k_dbs cong: sum.case_cong prod.case_cong)

lemma topks_dbs: "topks (cfg\<lparr>dbs := ns\<rparr>) = topks cfg"
  by (simp add: topks_def cong: sum.case_cong prod.case_cong option.case_cong list.case_cong if_cong)

lemma bench_db_dbs: "bench_db x env (cfg\<lparr>dbs := ns\<rparr>) d i n = bench_db x env cfg d i n"
  by (simp add: bench_db_def run_ks_dbs topks_dbs Let_def cong: sum.case_cong prod.case_cong option.case_cong list.case_cong if_cong)

lemma run_db_dbs: "run_db x env (cfg\<lparr>dbs := ns\<rparr>) d i n = run_db x env cfg d i n"
  by (simp add: run_db_def bench_db_dbs cong: sum.case_cong prod.case_cong option.case_cong list.case_cong if_cong)

lemma run_dbs_dbs:
  "run_dbs x env (cfg\<lparr>dbs := ns\<rparr>) d i names res = run_dbs x env cfg d i names res"
  by (induction names arbitrary: i res) (simp_all add: run_db_dbs cong: sum.case_cong prod.case_cong)

lemma run_db_unsupported: "get_db bad = None \<Longrightarrow> run_db x env cfg d i bad = (Inl AttributeError, [])"
  by (simp add: run_db_def bench_db_def)

lemma run_dbs_unsupported:
  assumes "get_db bad = None"
  shows "run_dbs x env cfg d i (pre @ bad # post) res =
     (case run_dbs x env cfg d i pre res of
        (Inl e, ev) \<Rightarrow> (Inl e, ev)
      | (Inr res', ev) \<Rightarrow> (Inl AttributeError, ev))"
proof (induction pre arbitrary: i res)
  case Nil
  show ?case by (simp add: run_db_unsupported [OF assms])
next
  case (Cons n pre)
  show ?case
    by (simp add: Cons.IH split: prod.splits sum.splits)
qed

text \<open>
  C8, as the code has it. Nothing checks the backend names at startup. A name that \<^verbatim>\<open>get_db\<close>
  does not know is noticed when the loop over the backends reaches it: the run does what
  the run on the backends before it does, and if that succeeds the unsupported name ends it
  with \<^verbatim>\<open>AttributeError\<close>, before any call on a backend for that name or a later one.
\<close>

theorem unsupported_backend_fails_when_reached:
  assumes "get_db bad = None"
    and "dbs cfg = pre @ bad # post"
  shows "main x env cfg =
     (case main x env (cfg\<lparr>dbs := pre\<rparr>) of
        (Inl e, ev) \<Rightarrow> (Inl e, ev)
      | (Inr res, ev) \<Rightarrow> (Inl AttributeError, ev))"
proof (cases "vectors cfg")
  case Nil
  then show ?thesis by (simp add: main_def)
next
  case (Cons v vs)
  have rc: "run_config (cfg\<lparr>dbs := pre\<rparr>) = run_config cfg"
    by (simp add: run_config_def)
  show ?thesis
    using Cons assms(2)
    by (simp add: main_def rc run_dbs_dbs run_dbs_unsupported [OF assms(1)])
qed

text \<open>C8 as stated fails: in the run on \<^verbatim>\<open>qdrant\<close> and an unknown name, \<^verbatim>\<open>qdrant\<close> is set up,
  filled, searched and torn down before the run ends with \<^verbatim>\<open>AttributeError\<close>.\<close>

theorem unsupported_backend_counterexample:
  "get_db ''bogus'' = None \<and>
   main demo_x demo_env bogus_cfg =
     (Inl AttributeError,
      [Setup ''qdrant'' (Some 2), Upsert ''qdrant'' None,
       Search ''qdrant'' 1, Search ''qdrant'' 1, Search ''qdrant'' 1, Teardown ''qdrant''])"
  by (simp add: bogus_cfg_def demo_defs run_defs)

theorem unsupported_backend_fails_when_reached_witness:
  "get_db ''bogus'' = None \<and> dbs bogus_cfg = [''qdrant''] @ ''bogus'' # [] \<and>
   \<not> isl (fst (main demo_x demo_env (bogus_cfg\<lparr>dbs := [''qdrant'']\<rparr>))) \<and>
   main demo_x demo_env bogus_cfg =
     (Inl AttributeError, snd (main demo_x demo_env (bogus_cfg\<lparr>dbs := [''qdrant'']\<rparr>)))"
proof -
  have g: "get_db ''bogus'' = None"
    by (simp add: get_db_def lower_def lower_char_def)
  have d: "dbs bogus_cfg = [''qdrant''] @ ''bogus'' # []"
    by (simp add: bogus_cfg_def demo_cfg_def)
  have s: "\<not> isl (fst (main demo_x demo_env (bogus_cfg\<lparr>dbs := [''qdrant'']\<rparr>)))"
    by (simp add: bogus_cfg_def demo_defs run_defs)
  show ?thesis
    using unsupported_backend_fails_when_reached [OF g d, of demo_x demo_env] g d s
    by (auto split: prod.splits sum.splits)
qed

section \<open>C6: the timed region of a query\<close>

text \<open>
  C6, as the code has it. The recorded latency is the difference of two successive readings
  of \<^verbatim>\<open>time.time()\<close>, the wall clock of the system, which is not monotonic. Between the two
  readings the worker makes the search call and no other call; the embedding of the query
  is produced before the first reading. When the search raises, no second reading is taken
  and no latency is recorded.
\<close>

theorem one_query_timed_region:
  "one_query model search k q w =
     (case search (model (q_text q)) k of
        Inl e \<Rightarrow>
          (Inl e,
           w\<lparr>reads := Suc (reads w),
             calls := calls w @ [EmbedCall (q_text q), TimeCall, SearchCall (model (q_text q)) k]\<rparr>)
      | Inr res \<Rightarrow>
          (Inr (readings w (Suc (reads w)) - readings w (reads w), res, q),
           w\<lparr>reads := Suc (Suc (reads w)),
             calls := calls w @
               [EmbedCall (q_text q), TimeCall, SearchCall (model (q_text q)) k, TimeCall]\<rparr>))"
  by (simp add: one_query_def time_time_def embed_query_def split: sum.splits)

text \<open>C6 as stated fails: the clock is not monotonic. When the system clock is set back from
  5 to 3 while the search runs, the recorded latency is \<open>- 2\<close>.\<close>

theorem one_query_clock_counterexample:
  "fst (one_query demo_model demo_search 1 demo_q set_back_thread) = Inr (- 2, [], demo_q)"
  by (simp add: one_query_def time_time_def embed_query_def set_back_thread_def set_back_clock_def
      demo_search_def demo_model_def)

section \<open>What a repetition adds to the lists\<close>

lemma process_sample_acc:
  assumes "process_sample x cfg n k a smp = Inr a'"
  shows "latencies a' = latencies a @ [fst smp]"
    and "first_latency a' = (case first_latency a of None \<Rightarrow> Some (fst smp) | Some l \<Rightarrow> Some l)"
    and "qps_by_rep a' = qps_by_rep a"
  using assms
  by (auto simp: process_sample_def Let_def split: prod.splits sum.splits option.splits)

lemma first_of_append: "first_of (xs @ ys) = (case first_of xs of None \<Rightarrow> first_of ys | Some v \<Rightarrow> Some v)"
  by (cases xs) (simp_all add: first_of_def)

lemma collect_acc:
  assumes "collect (process_sample x cfg n k) a ys = Inr a'"
  shows "latencies a' = latencies a @ sample_latencies ys \<and>
         first_latency a' = (case first_latency a of None \<Rightarrow> first_of (sample_latencies ys) | Some l \<Rightarrow> Some l) \<and>
         qps_by_rep a' = qps_by_rep a"
  using assms
proof (induction ys arbitrary: a)
  case Nil
  then show ?case by (simp add: sample_latencies_def first_of_def split: option.splits)
next
  case (Cons y ys)
  show ?case
  proof (cases y)
    case (Inl e)
    with Cons.prems show ?thesis by simp
  next
    case (Inr smp)
    with Cons.prems obtain a1 where
      a1: "process_sample x cfg n k a smp = Inr a1"
      and rest: "collect (process_sample x cfg n k) a1 ys = Inr a'"
      by (cases "process_sample x cfg n k a smp") auto
    have sl: "sample_latencies (y # ys) = fst smp # sample_latencies ys"
      by (simp add: sample_latencies_def Inr)
    show ?thesis
      using Cons.IH [OF rest] process_sample_acc [OF a1]
      by (auto simp: sl first_of_def split: option.splits)
  qed
qed

lemma run_rep_acc:
  assumes "run_rep x env cfg n k p a = (Inr a', ev)"
  shows "latencies a' = latencies a @ rep_latencies x env cfg k p"
    and "first_latency a' = (case first_latency a of None \<Rightarrow> first_of (rep_latencies x env cfg k p) | Some l \<Rightarrow> Some l)"
    and "qps_by_rep a' = qps_by_rep a @ [rep_qps env cfg p]"
proof -
  from assms obtain a1 where
    c: "collect (process_sample x cfg n k) a (yielded x env cfg k p) = Inr a1"
    and a': "a' = a1\<lparr>qps_by_rep := qps_by_rep a1 @ [rep_qps env cfg p]\<rparr>"
    by (auto simp: run_rep_def Let_def yielded_def rep_qps_def wall_time_def
        split: prod.splits sum.splits if_splits)
  note ca = collect_acc [OF c]
  show "latencies a' = latencies a @ rep_latencies x env cfg k p"
    using ca by (simp add: a' rep_latencies_def)
  show "first_latency a' = (case first_latency a of None \<Rightarrow> first_of (rep_latencies x env cfg k p) | Some l \<Rightarrow> Some l)"
    using ca by (simp add: a' rep_latencies_def split: option.splits)
  show "qps_by_rep a' = qps_by_rep a @ [rep_qps env cfg p]"
    using ca by (simp add: a')
qed

lemma run_reps_acc:
  assumes "run_reps x env cfg n k i j rs a = (Inr a', ev)"
  shows "latencies a' = latencies a @ concat (map (\<lambda>r. rep_latencies x env cfg k (i, j, r)) rs) \<and>
         first_latency a' =
           (case first_latency a of
              None \<Rightarrow> first_of (concat (map (\<lambda>r. rep_latencies x env cfg k (i, j, r)) rs))
            | Some l \<Rightarrow> Some l) \<and>
         qps_by_rep a' = qps_by_rep a @ map (\<lambda>r. rep_qps env cfg (i, j, r)) rs"
  using assms
proof (induction rs arbitrary: a ev)
  case Nil
  then show ?case by (simp add: first_of_def split: option.splits)
next
  case (Cons r rs)
  obtain o1 e1 where r1: "run_rep x env cfg n k (i, j, r) a = (o1, e1)"
    by fastforce
  with Cons.prems obtain a1 where o1: "o1 = Inr a1"
    by (cases o1) auto
  obtain o2 e2 where r2: "run_reps x env cfg n k i j rs a1 = (o2, e2)"
    by fastforce
  with Cons.prems r1 o1 have o2: "o2 = Inr a'"
    by simp
  note s1 = run_rep_acc [OF r1 [unfolded o1]]
  note s2 = Cons.IH [OF r2 [unfolded o2]]
  show ?case
    using s1 s2 by (auto simp: first_of_append split: option.splits)
qed

lemma run_k_acc:
  assumes "fst (run_k x env cfg n st it i j k) = Inr kr"
  shows "\<exists>a. kr = summarise st it a \<and>
           latencies a = pooled_latencies x env cfg k i j \<and>
           first_latency a = first_of (pooled_latencies x env cfg k i j) \<and>
           qps_by_rep a = map (\<lambda>r. rep_qps env cfg (i, j, r)) [0..<nat (repetitions cfg)]"
proof -
  from assms obtain a ev where
    rr: "run_reps x env cfg n k i j [0..<nat (repetitions cfg)] acc0 = (Inr a, ev)"
    and kr: "kr = summarise st it a"
    by (auto simp: run_k_def split: prod.splits sum.splits)
  from run_reps_acc [OF rr] kr show ?thesis
    by (auto simp: acc0_def pooled_latencies_def)
qed

text \<open>A repetition that completes has one sample for every query, so the mean over the
  pooled samples is the mean of the means of the repetitions.\<close>

lemma collect_all_returned: "collect f a ys = Inr a' \<Longrightarrow> list_all (\<lambda>y. \<not> isl y) ys"
proof (induction ys arbitrary: a)
  case Nil
  then show ?case by simp
next
  case (Cons y ys)
  show ?case
  proof (cases y)
    case (Inl e)
    with Cons.prems show ?thesis by simp
  next
    case (Inr s)
    with Cons.prems obtain a1 where "collect f a1 ys = Inr a'"
      by (cases "f a s") auto
    from Cons.IH [OF this] Inr show ?thesis by simp
  qed
qed

lemma sample_latencies_length:
  "list_all (\<lambda>y. \<not> isl y) ys \<Longrightarrow> length (sample_latencies ys) = length ys"
  by (induction ys) (auto simp: sample_latencies_def split: sum.splits)

lemma yielded_length: "length (yielded x env cfg k p) = length (queries cfg)"
  by (simp add: yielded_def as_completed_def submit_all_def)

lemma run_rep_samples:
  assumes "run_rep x env cfg n k p a = (Inr a', ev)"
  shows "length (rep_latencies x env cfg k p) = length (queries cfg)"
proof -
  from assms obtain a1 where
    "collect (process_sample x cfg n k) a (yielded x env cfg k p) = Inr a1"
    by (auto simp: run_rep_def Let_def yielded_def split: prod.splits sum.splits if_splits)
  from sample_latencies_length [OF collect_all_returned [OF this]] show ?thesis
    by (simp add: rep_latencies_def yielded_length)
qed

lemma run_reps_samples:
  assumes "run_reps x env cfg n k i j rs a = (Inr a', ev)" and "r \<in> set rs"
  shows "length (rep_latencies x env cfg k (i, j, r)) = length (queries cfg)"
  using assms
proof (induction rs arbitrary: a ev)
  case Nil
  then show ?case by simp
next
  case (Cons r' rs)
  obtain o1 e1 where r1: "run_rep x env cfg n k (i, j, r') a = (o1, e1)"
    by fastforce
  with Cons.prems(1) obtain a1 where o1: "o1 = Inr a1"
    by (cases o1) auto
  obtain o2 e2 where r2: "run_reps x env cfg n k i j rs a1 = (o2, e2)"
    by fastforce
  with Cons.prems(1) r1 o1 have o2: "o2 = Inr a'"
    by simp
  show ?case
  proof (cases "r = r'")
    case True
    with run_rep_samples [OF r1 [unfolded o1]] show ?thesis by simp
  next
    case False
    with Cons.prems(2) have "r \<in> set rs" by simp
    from Cons.IH [OF r2 [unfolded o2] this] show ?thesis .
  qed
qed

lemma sum_list_map_divide:
  "sum_list (map (\<lambda>xs. f xs / (c::real)) xss) = sum_list (map f xss) / c"
  by (induction xss) (simp_all add: add_divide_distrib)

lemma sum_list_concat_real: "sum_list (concat xss) = sum_list (map sum_list (xss::real list list))"
  by (induction xss) simp_all

lemma concat_length_same:
  "\<forall>xs\<in>set xss. length xs = m \<Longrightarrow> length (concat xss) = m * length xss"
  by (induction xss) simp_all

lemma mean_concat:
  assumes "xss \<noteq> []" and "0 < m" and "\<forall>xs\<in>set xss. length xs = m"
  shows "mean (concat xss) = mean (map mean xss)"
proof -
  have len: "length (concat xss) = m * length xss"
    using assms(3) by (rule concat_length_same)
  have "map mean xss = map (\<lambda>xs. sum_list xs / real m) xss"
    using assms(3) by (intro map_cong) (simp_all add: mean_def)
  then have "sum_list (map mean xss) = sum_list (map (\<lambda>xs. sum_list xs / real m) xss)"
    by (rule arg_cong)
  also have "\<dots> = sum_list (map sum_list xss) / real m"
    by (rule sum_list_map_divide)
  finally show ?thesis
    using assms(1,2) by (simp add: mean_def len sum_list_concat_real)
qed

lemma run_k_mean_of_means:
  assumes "fst (run_k x env cfg n st it i j k) = Inr kr"
    and "queries cfg \<noteq> []" and "1 \<le> repetitions cfg"
  shows "avg_query_latency_sec kr =
     Some (mean (map (\<lambda>r. mean (rep_latencies x env cfg k (i, j, r))) [0..<nat (repetitions cfg)]))"
proof -
  let ?rs = "[0..<nat (repetitions cfg)]"
  let ?xss = "map (\<lambda>r. rep_latencies x env cfg k (i, j, r)) ?rs"
  from assms(1) obtain a ev where
    rr: "run_reps x env cfg n k i j ?rs acc0 = (Inr a, ev)"
    by (auto simp: run_k_def split: prod.splits sum.splits)
  have same: "\<forall>xs\<in>set ?xss. length xs = length (queries cfg)"
    using run_reps_samples [OF rr] by auto
  have ne: "?xss \<noteq> []"
    using assms(3) by simp
  have pos: "0 < length (queries cfg)"
    using assms(2) by simp
  have m: "mean (concat ?xss) = mean (map mean ?xss)"
    using ne pos same by (rule mean_concat)
  have nonempty: "concat ?xss \<noteq> []"
  proof -
    have "length (concat ?xss) = length (queries cfg) * length ?xss"
      using same by (rule concat_length_same)
    moreover have "0 < length (queries cfg) * length ?xss"
      using ne pos by simp
    ultimately have "0 < length (concat ?xss)" by simp
    then show ?thesis by (cases "concat ?xss") simp_all
  qed
  from run_k_acc [OF assms(1)] obtain a' where kr: "kr = summarise st it a'"
    and la: "latencies a' = pooled_latencies x env cfg k i j"
    by blast
  have pl: "pooled_latencies x env cfg k i j = concat ?xss"
    by (simp add: pooled_latencies_def)
  have "avg_query_latency_sec kr = stat mean (concat ?xss)"
    by (simp add: kr summarise_def la pl)
  also have "\<dots> = Some (mean (concat ?xss))"
    using nonempty by (simp only: stat_def if_False)
  also have "\<dots> = Some (mean (map mean ?xss))"
    by (simp only: m)
  finally show ?thesis
    by (simp add: comp_def)
qed

section \<open>C3: the latency statistics\<close>

lemma demo_run_k:
  "fst (run_k demo_x demo_env demo_cfg ''qdrant'' 1 2 0 0 1) = Inr demo_kresult"
  by (simp add: demo_kresult_def demo_defs run_defs)

lemma demo_pooled: "pooled_latencies demo_x demo_env demo_cfg 1 0 0 = [1, 3]"
  by (simp add: pooled_latencies_def rep_latencies_def yielded_def sample_latencies_def
      demo_defs run_defs)

text \<open>
  C3, as the code has it. The lists of one \<open>k\<close> are created once and every repetition
  appends to them. The percentiles and the standard deviation of the latency are taken
  once over the samples of all repetitions pooled together, and the first latency is the
  first sample of the first repetition that has one: none of them is taken per
  repetition and then averaged. The mean latency is taken over the pooled samples too; as
  every repetition has one sample for every query, it is also the mean of the means of the
  repetitions. \<open>avg_qps\<close> is the mean of the throughputs that the repetitions record.
\<close>

theorem latency_statistics_are_pooled:
  assumes "fst (run_k x env cfg n st it i j k) = Inr kr"
  shows "avg_query_latency_sec kr = stat mean (pooled_latencies x env cfg k i j) \<and>
         p50_query_latency_sec kr = stat (\<lambda>xs. percentile xs 50) (pooled_latencies x env cfg k i j) \<and>
         p95_query_latency_sec kr = stat (\<lambda>xs. percentile xs 95) (pooled_latencies x env cfg k i j) \<and>
         p99_query_latency_sec kr = stat (\<lambda>xs. percentile xs 99) (pooled_latencies x env cfg k i j) \<and>
         latency_stddev_sec kr = stat np_std (pooled_latencies x env cfg k i j) \<and>
         first_query_latency_sec kr = first_of (pooled_latencies x env cfg k i j) \<and>
         avg_qps kr = stat mean (map (\<lambda>r. rep_qps env cfg (i, j, r)) [0..<nat (repetitions cfg)]) \<and>
         (queries cfg \<noteq> [] \<and> 1 \<le> repetitions cfg \<longrightarrow>
            avg_query_latency_sec kr =
              Some (mean (map (\<lambda>r. mean (rep_latencies x env cfg k (i, j, r)))
                            [0..<nat (repetitions cfg)])))"
proof -
  from run_k_acc [OF assms] obtain a where kr: "kr = summarise st it a"
    and la: "latencies a = pooled_latencies x env cfg k i j"
    and fa: "first_latency a = first_of (pooled_latencies x env cfg k i j)"
    and qa: "qps_by_rep a = map (\<lambda>r. rep_qps env cfg (i, j, r)) [0..<nat (repetitions cfg)]"
    by blast
  have "avg_query_latency_sec kr =
      Some (mean (map (\<lambda>r. mean (rep_latencies x env cfg k (i, j, r))) [0..<nat (repetitions cfg)]))"
    if "queries cfg \<noteq> [] \<and> 1 \<le> repetitions cfg"
    using run_k_mean_of_means [OF assms] that by blast
  then show ?thesis
    by (simp add: kr summarise_def la fa qa)
qed

text \<open>C3 as stated fails. In the run of the examples the two repetitions have the latencies
  1 and 3: the reported 95th percentile is 2.9 and the reported first latency is 1, while
  the mean of the 95th percentiles of the repetitions is 2 and the mean of their first
  latencies is 2.\<close>

theorem latency_statistics_counterexample:
  "fst (run_k demo_x demo_env demo_cfg ''qdrant'' 1 2 0 0 1) = Inr demo_kresult \<and>
   p95_query_latency_sec demo_kresult = Some (29 / 10) \<and>
   first_query_latency_sec demo_kresult = Some 1 \<and>
   rep_latencies demo_x demo_env demo_cfg 1 (0, 0, 0) = [1] \<and>
   rep_latencies demo_x demo_env demo_cfg 1 (0, 0, 1) = [3] \<and>
   mean [percentile [1] 95, percentile [3] 95] = 2 \<and>
   mean [1, 3] = 2"
proof -
  have "rep_latencies demo_x demo_env demo_cfg 1 (0, 0, 0) = [1]"
    and "rep_latencies demo_x demo_env demo_cfg 1 (0, 0, 1) = [3]"
    by (simp_all add: rep_latencies_def yielded_def sample_latencies_def demo_defs run_defs)
  moreover have "mean [percentile [1] 95, percentile [3] 95] = 2" and "mean [1, 3] = 2"
    by (simp_all add: mean_def percentile_def)
  moreover have "p95_query_latency_sec demo_kresult = Some (29 / 10)"
    and "first_query_latency_sec demo_kresult = Some 1"
    by (simp_all add: demo_kresult_def)
  ultimately show ?thesis
    using demo_run_k by blast
qed

theorem latency_statistics_are_pooled_witness:
  "fst (run_k demo_x demo_env demo_cfg ''qdrant'' 1 2 0 0 1) = Inr demo_kresult \<and>
   pooled_latencies demo_x demo_env demo_cfg 1 0 0 = [1, 3] \<and>
   p95_query_latency_sec demo_kresult =
     stat (\<lambda>xs. percentile xs 95) (pooled_latencies demo_x demo_env demo_cfg 1 0 0) \<and>
   first_query_latency_sec demo_kresult = first_of (pooled_latencies demo_x demo_env demo_cfg 1 0 0) \<and>
   queries demo_cfg \<noteq> [] \<and> 1 \<le> repetitions demo_cfg \<and>
   avg_query_latency_sec demo_kresult =
     Some (mean (map (\<lambda>r. mean (rep_latencies demo_x demo_env demo_cfg 1 (0, 0, r)))
                   [0..<nat (repetitions demo_cfg)])) \<and>
   avg_query_latency_sec demo_kresult = Some 2"
proof -
  have q: "queries demo_cfg \<noteq> []" and r: "1 \<le> repetitions demo_cfg"
    by (simp_all add: demo_cfg_def)
  have a: "avg_query_latency_sec demo_kresult = Some 2"
    by (simp add: demo_kresult_def)
  show ?thesis
    using latency_statistics_are_pooled [OF demo_run_k] demo_run_k demo_pooled q r a
    by blast
qed

section \<open>C7: the throughput\<close>






section \<open>C5: a run with no query\<close>

lemma run_rep_no_queries:
  assumes "queries cfg = []" and "0 < concurrency cfg"
  shows "run_rep x env cfg n k p a = (Inr (a\<lparr>qps_by_rep := qps_by_rep a @ [0]\<rparr>), [])"
  using assms
  by (simp add: run_rep_def submit_all_def as_completed_def split: prod.splits)

lemma run_reps_no_queries:
  assumes "queries cfg = []" and "0 < concurrency cfg"
  shows "run_reps x env cfg n k i j rs a =
           (Inr (a\<lparr>qps_by_rep := qps_by_rep a @ replicate (length rs) 0\<rparr>), [])"
proof (induction rs arbitrary: a)
  case Nil
  show ?case by simp
next
  case (Cons r rs)
  show ?case
    by (simp add: run_rep_no_queries [OF assms] Cons.IH replicate_append_same)
qed

lemma sum_list_zeros: "sum_list (replicate m (0::real)) = 0"
  by (induction m) simp_all

lemma stat_mean_zeros: "stat mean (replicate m 0) = (if m = 0 then None else Some 0)"
  by (simp add: stat_def mean_def sum_list_zeros)

text \<open>
  C5, as the code has it. With no query and a positive concurrency, every repetition
  completes with no sample and records the throughput 0. The statistics of the latency,
  the first latency, the mean hit count and the mean recall are absent; \<open>avg_qps\<close> is 0
  when there is at least one repetition, and absent only when there is none.
\<close>

theorem no_queries_statistics:
  assumes "queries cfg = []" and "0 < concurrency cfg"
  shows "fst (run_k x env cfg n st it i j k) =
     Inr \<lparr>setup_time_sec = st, ingest_time_sec = it,
          avg_query_latency_sec = None, p50_query_latency_sec = None,
          p95_query_latency_sec = None, p99_query_latency_sec = None,
          latency_stddev_sec = None, first_query_latency_sec = None,
          avg_hits_at = None, avg_recall_at = None,
          avg_qps = (if 1 \<le> repetitions cfg then Some 0 else None)\<rparr>"
  by (auto simp: run_k_def run_reps_no_queries [OF assms] summarise_def acc0_def stat_mean_zeros)
     (simp_all add: stat_def)

text \<open>C5 as stated fails: the run of the examples with no query reports \<open>avg_qps = 0\<close>.\<close>

theorem no_queries_counterexample:
  "queries empty_cfg = [] \<and>
   fst (run_k demo_x demo_env empty_cfg ''qdrant'' 1 2 0 0 1) =
     Inr \<lparr>setup_time_sec = 1, ingest_time_sec = 2,
          avg_query_latency_sec = None, p50_query_latency_sec = None,
          p95_query_latency_sec = None, p99_query_latency_sec = None,
          latency_stddev_sec = None, first_query_latency_sec = None,
          avg_hits_at = None, avg_recall_at = None, avg_qps = Some 0\<rparr>"
  by (simp add: empty_cfg_def demo_defs run_defs)

theorem no_queries_statistics_witness:
  "queries empty_cfg = [] \<and> 0 < concurrency empty_cfg \<and> 1 \<le> repetitions empty_cfg \<and>
   avg_qps (projr (fst (run_k demo_x demo_env empty_cfg ''qdrant'' 1 2 0 0 1))) = Some 0 \<and>
   avg_query_latency_sec (projr (fst (run_k demo_x demo_env empty_cfg ''qdrant'' 1 2 0 0 1))) = None"
proof -
  have q: "queries empty_cfg = []" and c: "0 < concurrency empty_cfg"
    and r: "1 \<le> repetitions empty_cfg"
    by (simp_all add: empty_cfg_def demo_cfg_def)
  show ?thesis
    using no_queries_statistics [OF q c, of demo_x demo_env "''qdrant''" 1 2 0 0 1] q c r
    by simp
qed

section \<open>C4: a search that raises\<close>

lemma collect_fails: "Inl e \<in> set ys \<Longrightarrow> isl (collect f a ys)"
proof (induction ys arbitrary: a)
  case Nil
  then show ?case by simp
next
  case (Cons y ys)
  show ?case
  proof (cases y)
    case (Inl e')
    then show ?thesis by simp
  next
    case (Inr s)
    with Cons.prems have "Inl e \<in> set ys" by auto
    from Cons.IH [OF this] Inr show ?thesis
      by (cases "f a s") simp_all
  qed
qed

lemma one_query_fails: "search (model (q_text q)) k = Inl e \<Longrightarrow> fst (one_query model search k q w) = Inl e"
  by (simp add: one_query_def time_time_def embed_query_def)

lemma yielded_fails:
  assumes "idx < length (queries cfg)" and "w_search (worker env p idx) = Inl e"
  shows "Inl e \<in> set (yielded x env cfg k p)"
proof -
  have "idx \<in> set (sort_key (shuffle_key env p) [0..<length (queries cfg)])"
    using assms(1) by simp
  then have "(idx, Inl e) \<in> set (submit_all x env cfg k p)"
    using assms(2) by (force simp: submit_all_def one_query_fails)
  then have "(idx, Inl e) \<in> set (sort_key (\<lambda>f. w_done (worker env p (fst f))) (submit_all x env cfg k p))"
    by simp
  then have "snd (idx, Inl e) \<in> snd ` set (sort_key (\<lambda>f. w_done (worker env p (fst f))) (submit_all x env cfg k p))"
    by (rule imageI)
  then show ?thesis
    by (simp add: yielded_def as_completed_def)
qed

lemma run_rep_fails:
  assumes "idx < length (queries cfg)" and "isl (w_search (worker env p idx))"
    and "run_rep x env cfg n k p a = (out, ev)"
  shows "isl out"
proof -
  from assms(2) obtain e where "w_search (worker env p idx) = Inl e"
    by (cases "w_search (worker env p idx)") auto
  from yielded_fails [OF assms(1) this]
  have "isl (collect (process_sample x cfg n k) a (yielded x env cfg k p))"
    by (rule collect_fails)
  then obtain e' where eq:
    "collect (process_sample x cfg n k) a (as_completed env p (submit_all x env cfg k p)) = Inl e'"
    by (cases "collect (process_sample x cfg n k) a (as_completed env p (submit_all x env cfg k p))")
      (auto simp: yielded_def)
  have "fst (run_rep x env cfg n k p a) = (if concurrency cfg \<le> 0 then Inl ValueError else Inl e')"
    by (simp add: run_rep_def Let_def eq split: prod.splits)
  with assms(3) show ?thesis
    by (simp split: if_splits)
qed

lemma run_reps_fails:
  assumes "idx < length (queries cfg)" and "isl (w_search (worker env (i, j, r) idx))"
    and "r \<in> set rs" and "run_reps x env cfg n k i j rs a = (out, ev)"
  shows "isl out"
  using assms(3,4)
proof (induction rs arbitrary: a out ev)
  case Nil
  then show ?case by simp
next
  case (Cons r' rs)
  then show ?case
    using run_rep_fails [OF assms(1,2), of x n k a]
    by (auto split: prod.splits sum.splits)
qed

lemma run_k_fails:
  assumes "idx < length (queries cfg)" and "isl (w_search (worker env (i, j, r) idx))"
    and "r < nat (repetitions cfg)" and "run_k x env cfg n st it i j k = (out, ev)"
  shows "isl out"
  using run_reps_fails [OF assms(1,2), of "[0..<nat (repetitions cfg)]" x n k acc0] assms(3,4)
  by (auto simp: run_k_def split: prod.splits sum.splits)

lemma run_ks_fails:
  assumes "idx < length (queries cfg)" and "isl (w_search (worker env (i, j + m, r) idx))"
    and "r < nat (repetitions cfg)" and "m < length ks"
    and "run_ks x env cfg n st it i j ks res = (out, ev)"
  shows "isl out"
  using assms(2,4,5)
proof (induction ks arbitrary: j m res out ev)
  case Nil
  then show ?case by simp
next
  case (Cons k ks)
  obtain o1 e1 where r1: "run_k x env cfg n st it i j k = (o1, e1)"
    by fastforce
  show ?case
  proof (cases o1)
    case (Inl e)
    with r1 Cons.prems(3) show ?thesis by auto
  next
    case (Inr kr)
    have "m \<noteq> 0"
      using run_k_fails [OF assms(1) _ assms(3) r1] Cons.prems(1) Inr
      by (cases m) auto
    then obtain m' where m: "m = Suc m'" by (cases m) auto
    with Cons.prems have f: "isl (w_search (worker env (i, Suc j + m', r) idx))" and l: "m' < length ks"
      by simp_all
    obtain o2 e2 where r2: "run_ks x env cfg n st it i (Suc j) ks (res(k \<mapsto> kr)) = (o2, e2)"
      by fastforce
    from Cons.IH [OF f l r2] have "isl o2" .
    with Cons.prems(3) r1 Inr r2 show ?thesis by auto
  qed
qed

lemma bench_db_fails:
  assumes "idx < length (queries cfg)" and "isl (w_search (worker env (i, j, r) idx))"
    and "r < nat (repetitions cfg)" and "j < length (topks cfg)"
    and "bench_db x env cfg d i n = (out, ev)"
  shows "isl out"
proof -
  have "isl o4" if "run_ks x env cfg n st it i 0 (topks cfg) Map.empty = (o4, e4)" for st it o4 e4
    using run_ks_fails [OF assms(1) _ assms(3,4) that] assms(2) by simp
  then show ?thesis
    using assms(5)
    by (auto simp: bench_db_def Let_def split: prod.splits sum.splits option.splits)
qed

lemma run_db_fails:
  assumes "idx < length (queries cfg)" and "isl (w_search (worker env (i, j, r) idx))"
    and "r < nat (repetitions cfg)" and "j < length (topks cfg)"
    and "run_db x env cfg d i n = (out, ev)"
  shows "isl out"
  using assms(5) bench_db_fails [OF assms(1-4), of x d n]
  by (auto simp: run_db_def split: prod.splits sum.splits option.splits if_splits)

lemma run_dbs_fails:
  assumes "idx < length (queries cfg)" and "isl (w_search (worker env (i + m, j, r) idx))"
    and "r < nat (repetitions cfg)" and "j < length (topks cfg)" and "m < length names"
    and "run_dbs x env cfg d i names res = (out, ev)"
  shows "isl out"
  using assms(2,5,6)
proof (induction names arbitrary: i m res out ev)
  case Nil
  then show ?case by simp
next
  case (Cons n names)
  obtain o1 e1 where r1: "run_db x env cfg d i n = (o1, e1)"
    by fastforce
  show ?case
  proof (cases o1)
    case (Inl e)
    with r1 Cons.prems(3) show ?thesis by auto
  next
    case (Inr dr)
    have "m \<noteq> 0"
      using run_db_fails [OF assms(1) _ assms(3,4) r1] Cons.prems(1) Inr
      by (cases m) auto
    then obtain m' where m: "m = Suc m'" by (cases m) auto
    with Cons.prems have f: "isl (w_search (worker env (Suc i + m', j, r) idx))"
      and l: "m' < length names"
      by simp_all
    obtain o2 e2 where r2:
      "run_dbs x env cfg d (Suc i) names (res\<lparr>by_db := (by_db res)(n \<mapsto> dr)\<rparr>) = (o2, e2)"
      by fastforce
    from Cons.IH [OF f l r2] have "isl o2" .
    with Cons.prems(3) r1 Inr r2 show ?thesis by auto
  qed
qed

text \<open>
  C4, as the code has it. Nothing catches the exception of a search call. When the search of
  any query raises, in any repetition of any \<open>k\<close> on any backend of the run, the run ends
  with an exception and without results: no failure is recorded or counted, and neither
  the repetition nor the rest of the run continues.
\<close>

theorem search_failure_ends_run:
  assumes "i < length (dbs cfg)" and "j < length (topks cfg)" and "r < nat (repetitions cfg)"
    and "idx < length (queries cfg)"
    and "isl (w_search (worker env (i, j, r) idx))"
  shows "isl (fst (main x env cfg))"
proof (cases "vectors cfg")
  case Nil
  then show ?thesis by (simp add: main_def)
next
  case (Cons v vs)
  obtain out ev where
    r: "run_dbs x env cfg (length v) 0 (dbs cfg) \<lparr>config = run_config cfg, by_db = Map.empty\<rparr> = (out, ev)"
    by fastforce
  have "isl out"
    using run_dbs_fails [OF assms(4) _ assms(3,2,1) r] assms(5) by simp
  with Cons r show ?thesis
    by (simp add: main_def)
qed

text \<open>C4 as stated fails: when the search of the second repetition raises, the run ends with
  that exception after the searches of the first backend, with no result for any backend.\<close>

theorem search_failure_counterexample:
  "w_search (worker failing_env (0, 0, 1) 0) = Inl BackendError \<and>
   main demo_x failing_env demo_cfg =
     (Inl BackendError,
      [Setup ''qdrant'' (Some 2), Upsert ''qdrant'' None,
       Search ''qdrant'' 1, Search ''qdrant'' 1, Search ''qdrant'' 1])"
  by (simp add: failing_env_def failing_worker_def demo_defs run_defs)

theorem search_failure_ends_run_witness:
  "0 < length (dbs demo_cfg) \<and> 0 < length (topks demo_cfg) \<and> 1 < nat (repetitions demo_cfg) \<and>
   0 < length (queries demo_cfg) \<and> isl (w_search (worker failing_env (0, 0, 1) 0)) \<and>
   isl (fst (main demo_x failing_env demo_cfg))"
proof -
  have a: "0 < length (dbs demo_cfg)" "0 < length (topks demo_cfg)" "1 < nat (repetitions demo_cfg)"
    "0 < length (queries demo_cfg)"
    by (simp_all add: demo_cfg_def topks_def)
  have b: "isl (w_search (worker failing_env (0, 0, 1) 0))"
    by (simp add: failing_env_def failing_worker_def demo_env_def)
  show ?thesis
    using search_failure_ends_run [OF a b, of demo_x] a b by simp
qed

section \<open>C2: recall of a result that equals the baseline\<close>

lemma recall_of_exact_ids:
  assumes "numpy_ok np" and "list_all (\<lambda>row. length row = length qv) vecs" and "0 < k"
    and "lower n \<noteq> ''pinecone''"
    and "exact_topk_indices np qv vecs k = Inr idx"
    and "set (res_ids_int res) = set (map int idx)"
  shows "recall_at_k np vecs n qv res k = Inr (real (min (nat k) (length vecs)) / real_of_int k)"
proof -
  from exact_topk_sound [OF assms(1,2), of k] assms(3,5)
  have len: "length idx = min (nat k) (length vecs)" and d: "distinct idx"
    by auto
  have "distinct (map int idx)"
    using d by (simp add: distinct_map)
  then have "card (set (map int idx)) = length idx"
    using distinct_card [of "map int idx"] by simp
  then have "card (set (map int idx) \<inter> set (res_ids_int res)) = min (nat k) (length vecs)"
    by (simp add: assms(6) len)
  then show ?thesis
    using assms(3,4,5) by (simp add: recall_at_k_def recall_of_def)
qed

lemma recall_of_exact_ids_within_data:
  assumes "numpy_ok np" and "list_all (\<lambda>row. length row = length qv) vecs" and "0 < k"
    and "k \<le> int (length vecs)"
    and "lower n \<noteq> ''pinecone''"
    and "exact_topk_indices np qv vecs k = Inr idx"
    and "set (res_ids_int res) = set (map int idx)"
  shows "recall_at_k np vecs n qv res k = Inr 1"
proof -
  have "min (nat k) (length vecs) = nat k"
    using assms(3,4) by simp
  with recall_of_exact_ids [OF assms(1,2,3,5,6,7)] assms(3) show ?thesis
    by simp
qed

text \<open>
  C2 on the code. For \<open>0 < k \<le> N\<close> a result that holds exactly the identifiers of the
  baseline has recall 1, as the two lemmas above show. For \<open>k > N\<close> the baseline returns
  \<open>N\<close> indices and the code still divides the size of the intersection by \<open>k\<close>: with the
  three reference vectors of the examples and \<open>k = 5\<close>, a result that holds exactly the three
  identifiers of the baseline has recall 3/5.
\<close>

theorem recall_of_exact_result_when_k_exceeds_data:
  "exact_topk_indices np_ref demo_qv demo_mat 5 = Inr [1, 2, 0] \<and>
   set (res_ids_int [hit_of 1, hit_of 2, hit_of 0]) = set (map int [1, 2, 0]) \<and>
   recall_at_k np_ref demo_mat ''qdrant'' demo_qv [hit_of 1, hit_of 2, hit_of 0] 5 = Inr (3 / 5)"
  by (simp add: recall_at_k_def exact_topk_indices_def matvec_def dot_def np_ref_def argsort_ref_def
      recall_of_def lower_def lower_char_def res_ids_int_def as_int_def get_row_id_def hit_of_def
      upt_rec demo_qv_def demo_mat_def)


end
